theory Spec2Isabelle
  imports Complex_Main
begin

section \<open>Data model of \<^verbatim>\<open>BaseSoundManager.js\<close>\<close>

text \<open>
  The manager keeps references to sound objects in the array \<^verbatim>\<open>this.sounds\<close>. A reference
  is a sound identity \<open>sid\<close>; the objects themselves live in a store (\<open>heap\<close>), so that a
  sound found ``by identity'' and a sound that has left the registry are both expressible.
  JavaScript numbers are only stored and forwarded by the manager; they are values of
  \<open>num\<close>. The one arithmetic operation of the file, \<^verbatim>\<open>marker.end - marker.start\<close>, is
  the parameter \<open>js_minus\<close> of the environment.
\<close>

type_synonym sid = nat
type_synonym num = real

datatype error = TypeError

text \<open>An \<^verbatim>\<open>ISoundConfig\<close> object: settings by name. The manager never looks inside.\<close>

type_synonym config = "(string \<times> num) list"

text \<open>An \<^verbatim>\<open>ISoundMarker\<close> object \<^verbatim>\<open>{name, start, duration, config}\<close>.\<close>

record marker =
  m_name :: string
  m_start :: num
  m_duration :: num
  m_config :: "config option"

text \<open>
  The \<^verbatim>\<open>extra\<close> argument of \<^verbatim>\<open>play\<close> is whatever the caller passes: a JavaScript value,
  \<^verbatim>\<open>undefined\<close> when the argument is left out. Values are the primitives and plain
  objects; an object is the list of its own properties, the first entry for a name being
  the property.
\<close>

datatype jsval =
    JUndefined
  | JNull
  | JBool bool
  | JNum num
  | JNaN
  | JStr string
  | JObj "(string \<times> jsval) list"

text \<open>What \<^verbatim>\<open>if (x)\<close> tests.\<close>

fun truthy :: "jsval \<Rightarrow> bool" where
  "truthy JUndefined = False"
| "truthy JNull = False"
| "truthy (JBool b) = b"
| "truthy (JNum n) = (n \<noteq> 0)"
| "truthy JNaN = False"
| "truthy (JStr s) = (s \<noteq> [])"
| "truthy (JObj ps) = True"

text \<open>
  \<^verbatim>\<open>x.name\<close>: the property of an object, \<^verbatim>\<open>undefined\<close> when the object has none and on a
  boolean, a number or a string; reading it from \<^verbatim>\<open>undefined\<close> or \<^verbatim>\<open>null\<close> throws.
\<close>

fun get_name :: "jsval \<Rightarrow> error + jsval" where
  "get_name JUndefined = Inl TypeError"
| "get_name JNull = Inl TypeError"
| "get_name (JObj ps) = Inr (case map_of ps ''name'' of None \<Rightarrow> JUndefined | Some v \<Rightarrow> v)"
| "get_name x = Inr JUndefined"

definition name_of :: "jsval \<Rightarrow> jsval" where
  "name_of x = (case get_name x of Inl e \<Rightarrow> JUndefined | Inr v \<Rightarrow> v)"

text \<open>
  One enumerable property of a \<^verbatim>\<open>spritemap\<close> object, in \<^verbatim>\<open>for ... in\<close> order:
  its name, whether \<^verbatim>\<open>hasOwnProperty\<close> holds for it, and the \<^verbatim>\<open>start\<close> and
  \<^verbatim>\<open>end\<close> of its value.
\<close>

record sprite =
  sp_name :: string
  sp_own :: bool
  sp_start :: num
  sp_end :: num

text \<open>What \<^verbatim>\<open>game.cache.json.get(key)\<close> returns: an object whose \<^verbatim>\<open>spritemap\<close> may be undefined.\<close>

record json =
  j_spritemap :: "sprite list option"

text \<open>
  The fields of a sound that the manager reads or writes (\<^verbatim>\<open>key\<close>, \<^verbatim>\<open>pendingRemove\<close>,
  \<^verbatim>\<open>spritemap\<close>), and the state of the backend that implements the sound.
\<close>

record 'b sound =
  key :: string
  pendingRemove :: bool
  spritemap :: "sprite list option"
  backend :: 'b

text \<open>
  Arguments of \<^verbatim>\<open>sound.play(...)\<close> as this file passes them: the sprite name and the config
  of \<^verbatim>\<open>playAudioSprite\<close>, and a value of the caller (\<^verbatim>\<open>extra\<close> or \<^verbatim>\<open>extra.name\<close>) in
  \<^verbatim>\<open>play\<close>.
\<close>

datatype arg = AName string | AConfig "config option" | AValue jsval

text \<open>
  The methods of a sound that the manager invokes. \<^verbatim>\<open>addMarker\<close> receives the marker
  literal that \<^verbatim>\<open>addAudioSprite\<close> builds (\<open>AddMarker\<close>) or, from \<^verbatim>\<open>play\<close>, the caller's
  own \<^verbatim>\<open>extra\<close> (\<open>AddMarkerArg\<close>).
\<close>

datatype call =
    Play "arg list"
  | Pause
  | Resume
  | Stop
  | Destroy
  | Update num num
  | SetRate
  | AddMarker marker
  | AddMarkerArg jsval

datatype event_name = SOUND_PAUSE | SOUND_RESUME | SOUND_STOP | SOUND_RATE | SOUND_DETUNE

text \<open>\<^verbatim>\<open>new SoundEvent(this, name)\<close> and \<^verbatim>\<open>new SoundValueEvent(this, name, value)\<close>.\<close>

datatype event = SoundEvent event_name | SoundValueEvent event_name num

datatype signal = ON_BLUR | ON_FOCUS

text \<open>The overridable hooks \<^verbatim>\<open>onBlur\<close> and \<^verbatim>\<open>onFocus\<close> (\<^verbatim>\<open>NOOP\<close> in this class).\<close>

datatype hook = OnBlur | OnFocus

text \<open>
  Everything the manager does to its collaborators, in the order it does it: a method
  invoked on a sound, an event dispatched on \<^verbatim>\<open>this.events\<close>, \<^verbatim>\<open>this.events.destroy()\<close>,
  and an invocation of one of the manager's own hooks.
\<close>

datatype effect =
    SoundCall sid call
  | Dispatch event
  | EventsDestroy
  | ManagerHook hook

text \<open>The two closures the constructor subscribes on \<^verbatim>\<open>game.events\<close>.\<close>

datatype listener = BlurListener | FocusListener

text \<open>\<^verbatim>\<open>sound.destroy.bind(sound)\<close>, the handler \<^verbatim>\<open>play\<close> subscribes on the sound's channel.\<close>

datatype handler = DestroyBound sid

datatype gameref = Game
datatype channel = EventDispatcher

text \<open>
  The manager's fields (\<^verbatim>\<open>null\<close> is \<open>None\<close>), then the state around it: the sound
  objects, the next unused sound identity, the one-shot \<^verbatim>\<open>SOUND_ENDED\<close> subscriptions of
  every sound, the subscriptions on \<^verbatim>\<open>game.events\<close>, and the effects so far.
\<close>

record 'b world =
  game :: "gameref option"
  events :: "channel option"
  sounds :: "sid list option"
  mute :: bool
  volume :: num
  pauseOnBlur :: bool
  rate_field :: num
  detune_field :: num
  heap :: "sid \<Rightarrow> 'b sound"
  next_sid :: sid
  ended_once :: "sid \<Rightarrow> handler list"
  game_listeners :: "(signal \<times> listener) list"
  trace :: "effect list"

text \<open>The manager-wide settings a sound can read when one of its methods runs.\<close>

record globals =
  g_mute :: bool
  g_volume :: num
  g_rate :: num
  g_detune :: num

definition globals_of :: "'b world \<Rightarrow> globals" where
  "globals_of w = \<lparr>g_mute = mute w, g_volume = volume w, g_rate = rate_field w, g_detune = detune_field w\<rparr>"

text \<open>
  Modelled from the spec: the sound backend, the asset cache and number arithmetic are
  not in this file. A sound method is a parameter: it reads the manager's settings and
  transforms the sound's own state, the flag \<^verbatim>\<open>pendingRemove\<close> included (``sounds mutate
  only their own internal state and their own \<^verbatim>\<open>pendingRemove\<close> flag, and never reach
  into the registry directly''). \<open>create\<close> is the backend state of a new sound,
  \<open>cache_json\<close> is \<^verbatim>\<open>game.cache.json.get\<close> (\<open>None\<close> is \<^verbatim>\<open>undefined\<close>).
\<close>

record 'b env =
  sound_method :: "call \<Rightarrow> globals \<Rightarrow> 'b sound \<Rightarrow> 'b sound"
  create :: "string \<Rightarrow> config option \<Rightarrow> 'b"
  cache_json :: "string \<Rightarrow> json option"
  js_minus :: "num \<Rightarrow> num \<Rightarrow> num"

section \<open>Collaborators\<close>

text \<open>\<^verbatim>\<open>sound.m(...)\<close>: the method runs on the sound's own state and the call is recorded.\<close>

definition invoke :: "'b env \<Rightarrow> sid \<Rightarrow> call \<Rightarrow> 'b world \<Rightarrow> 'b world" where
  "invoke env s c w =
     w\<lparr>heap := (heap w)(s := sound_method env c (globals_of w) (heap w s)),
       trace := trace w @ [SoundCall s c]\<rparr>"

text \<open>\<^verbatim>\<open>this.events.dispatch(e)\<close>; \<^verbatim>\<open>this.events\<close> is \<^verbatim>\<open>null\<close> after \<^verbatim>\<open>destroy\<close>.\<close>

definition dispatch :: "event \<Rightarrow> 'b world \<Rightarrow> error + 'b world" where
  "dispatch e w =
     (case events w of
        None \<Rightarrow> Inl TypeError
      | Some ch \<Rightarrow> Inr (w\<lparr>trace := trace w @ [Dispatch e]\<rparr>))"

section \<open>The manager\<close>

text \<open>
  \<^verbatim>\<open>forEachActiveSound\<close>: \<^verbatim>\<open>this.sounds.forEach\<close> visits the registry front to back and
  tests \<^verbatim>\<open>pendingRemove\<close> when it reaches a sound. The callbacks of this file take the
  sound only and invoke one of its methods, so the registry is the same array throughout.
\<close>

fun forEach_active :: "(sid \<Rightarrow> 'b world \<Rightarrow> 'b world) \<Rightarrow> sid list \<Rightarrow> 'b world \<Rightarrow> 'b world" where
  "forEach_active callbackfn [] w = w"
| "forEach_active callbackfn (s # ss) w =
     forEach_active callbackfn ss (if \<not> pendingRemove (heap w s) then callbackfn s w else w)"

definition forEachActiveSound :: "(sid \<Rightarrow> 'b world \<Rightarrow> 'b world) \<Rightarrow> 'b world \<Rightarrow> error + 'b world" where
  "forEachActiveSound callbackfn w =
     (case sounds w of
        None \<Rightarrow> Inl TypeError
      | Some xs \<Rightarrow> Inr (forEach_active callbackfn xs w))"

text \<open>The accessors of \<^verbatim>\<open>rate\<close> and \<^verbatim>\<open>detune\<close>.\<close>

definition get_rate :: "'b world \<Rightarrow> num" where
  "get_rate w = rate_field w"

definition set_rate :: "'b env \<Rightarrow> num \<Rightarrow> 'b world \<Rightarrow> error + 'b world" where
  "set_rate env v w =
     (case forEachActiveSound (\<lambda>s. invoke env s SetRate) (w\<lparr>rate_field := v\<rparr>) of
        Inl e \<Rightarrow> Inl e
      | Inr w' \<Rightarrow> dispatch (SoundValueEvent SOUND_RATE v) w')"

definition get_detune :: "'b world \<Rightarrow> num" where
  "get_detune w = detune_field w"

definition set_detune :: "'b env \<Rightarrow> num \<Rightarrow> 'b world \<Rightarrow> error + 'b world" where
  "set_detune env v w =
     (case forEachActiveSound (\<lambda>s. invoke env s SetRate) (w\<lparr>detune_field := v\<rparr>) of
        Inl e \<Rightarrow> Inl e
      | Inr w' \<Rightarrow> dispatch (SoundValueEvent SOUND_DETUNE v) w')"

text \<open>
  Modelled from the spec: \<^verbatim>\<open>add\<close> is the \<^verbatim>\<open>NOOP\<close> placeholder in this class and the
  concrete factory is backend code. It ``instantiates a sound'' for the asset key,
  ``registers it, and returns it'': a new object with the given key and a clear
  \<^verbatim>\<open>pendingRemove\<close> flag is appended to \<^verbatim>\<open>this.sounds\<close>.
\<close>

definition add :: "'b env \<Rightarrow> string \<Rightarrow> config option \<Rightarrow> 'b world \<Rightarrow> error + (sid \<times> 'b world)" where
  "add env k cfg w =
     (case sounds w of
        None \<Rightarrow> Inl TypeError
      | Some xs \<Rightarrow>
          Inr (next_sid w,
               w\<lparr>heap := (heap w)(next_sid w :=
                     \<lparr>key = k, pendingRemove = False, spritemap = None, backend = create env k cfg\<rparr>),
                 next_sid := Suc (next_sid w),
                 ended_once := (ended_once w)(next_sid w := []),
                 sounds := Some (xs @ [next_sid w])\<rparr>))"

text \<open>
  Modelled from the spec: the sound's own event channel is backend code. It supports a
  ``one-shot subscription'' that ``fires at most once, is not re-armed'':
  \<^verbatim>\<open>sound.events.once('SOUND_ENDED', h)\<close> appends \<open>h\<close>; when the sound signals
  playback-ended, the subscriptions are dropped and each handler runs once.
\<close>

definition once :: "sid \<Rightarrow> handler \<Rightarrow> 'b world \<Rightarrow> 'b world" where
  "once s h w = w\<lparr>ended_once := (ended_once w)(s := ended_once w s @ [h])\<rparr>"

fun run_handler :: "'b env \<Rightarrow> handler \<Rightarrow> 'b world \<Rightarrow> 'b world" where
  "run_handler env (DestroyBound s) w = invoke env s Destroy w"

definition emit_ended :: "'b env \<Rightarrow> sid \<Rightarrow> 'b world \<Rightarrow> 'b world" where
  "emit_ended env s w =
     fold (run_handler env) (ended_once w s) (w\<lparr>ended_once := (ended_once w)(s := [])\<rparr>)"

text \<open>
  The loop of \<^verbatim>\<open>addAudioSprite\<close> over the property names of the sprite map. Each round
  reads \<^verbatim>\<open>sound.spritemap\<close> again: \<^verbatim>\<open>hasOwnProperty(markerName)\<close>, then
  \<^verbatim>\<open>sound.spritemap[markerName]\<close>.
\<close>

fun addAudioSprite_loop :: "'b env \<Rightarrow> sid \<Rightarrow> config option \<Rightarrow> string list \<Rightarrow> 'b world \<Rightarrow> error + 'b world" where
  "addAudioSprite_loop env s cfg [] w = Inr w"
| "addAudioSprite_loop env s cfg (markerName # rest) w =
     (case spritemap (heap w s) of
        None \<Rightarrow> Inl TypeError
      | Some es \<Rightarrow>
          (case find (\<lambda>e. sp_name e = markerName) es of
             None \<Rightarrow> addAudioSprite_loop env s cfg rest w
           | Some e \<Rightarrow>
               if \<not> sp_own e then addAudioSprite_loop env s cfg rest w
               else addAudioSprite_loop env s cfg rest
                      (invoke env s
                         (AddMarker \<lparr>m_name = markerName, m_start = sp_start e,
                                     m_duration = js_minus env (sp_end e) (sp_start e),
                                     m_config = cfg\<rparr>) w)))"

definition addAudioSprite :: "'b env \<Rightarrow> string \<Rightarrow> config option \<Rightarrow> 'b world \<Rightarrow> error + (sid \<times> 'b world)" where
  "addAudioSprite env k cfg w =
     (case add env k cfg w of
        Inl e \<Rightarrow> Inl e
      | Inr (s, w1) \<Rightarrow>
          (case game w1 of
             None \<Rightarrow> Inl TypeError
           | Some g \<Rightarrow>
               (case cache_json env k of
                  None \<Rightarrow> Inl TypeError
                | Some j \<Rightarrow>
                    (case addAudioSprite_loop env s cfg
                            (case j_spritemap j of None \<Rightarrow> [] | Some es \<Rightarrow> map sp_name es)
                            (w1\<lparr>heap := (heap w1)(s := (heap w1 s)\<lparr>spritemap := j_spritemap j\<rparr>)\<rparr>) of
                       Inl e \<Rightarrow> Inl e
                     | Inr w2 \<Rightarrow> Inr (s, w2)))))"

text \<open>
  \<^verbatim>\<open>play\<close>: \<^verbatim>\<open>if (extra)\<close>, then \<^verbatim>\<open>if (extra.name)\<close>, both by truthiness.
\<close>

definition play :: "'b env \<Rightarrow> string \<Rightarrow> jsval \<Rightarrow> 'b world \<Rightarrow> error + 'b world" where
  "play env k extra w =
     (case add env k None w of
        Inl e \<Rightarrow> Inl e
      | Inr (s, w1) \<Rightarrow>
          let w2 = once s (DestroyBound s) w1 in
          if truthy extra
          then (case get_name extra of
                  Inl e \<Rightarrow> Inl e
                | Inr n \<Rightarrow>
                    if truthy n
                    then Inr (invoke env s (Play [AValue n]) (invoke env s (AddMarkerArg extra) w2))
                    else Inr (invoke env s (Play [AValue extra]) w2))
          else Inr (invoke env s (Play []) w2))"

definition playAudioSprite :: "'b env \<Rightarrow> string \<Rightarrow> string \<Rightarrow> config option \<Rightarrow> 'b world \<Rightarrow> error + 'b world" where
  "playAudioSprite env k spriteName cfg w =
     (case addAudioSprite env k None w of
        Inl e \<Rightarrow> Inl e
      | Inr (s, w1) \<Rightarrow>
          Inr (invoke env s (Play [AName spriteName, AConfig cfg]) (once s (DestroyBound s) w1)))"

text \<open>\<^verbatim>\<open>Array.prototype.indexOf\<close> (\<open>- 1\<close> when absent) and \<^verbatim>\<open>splice(i, 1)\<close>.\<close>

fun indexOf_from :: "'a list \<Rightarrow> 'a \<Rightarrow> int \<Rightarrow> int" where
  "indexOf_from [] x i = - 1"
| "indexOf_from (y # ys) x i = (if y = x then i else indexOf_from ys x (i + 1))"

definition indexOf :: "'a list \<Rightarrow> 'a \<Rightarrow> int" where
  "indexOf xs x = indexOf_from xs x 0"

definition splice1 :: "'a list \<Rightarrow> nat \<Rightarrow> 'a list" where
  "splice1 xs i = take i xs @ drop (Suc i) xs"

definition remove :: "'b env \<Rightarrow> sid \<Rightarrow> 'b world \<Rightarrow> error + (bool \<times> 'b world)" where
  "remove env s w =
     (case sounds w of
        None \<Rightarrow> Inl TypeError
      | Some xs \<Rightarrow>
          if indexOf xs s \<noteq> - 1
          then Inr (True, (invoke env s Destroy w)\<lparr>sounds := Some (splice1 xs (nat (indexOf xs s)))\<rparr>)
          else Inr (False, w))"

text \<open>
  The loop of \<^verbatim>\<open>removeByKey\<close>: \<open>Suc i\<close> is the number of indices still to visit, so the
  round visits index \<open>i\<close>. Reading past the end of the array would give \<^verbatim>\<open>undefined\<close>,
  whose \<^verbatim>\<open>key\<close> cannot be read.
\<close>

fun removeByKey_loop :: "'b env \<Rightarrow> string \<Rightarrow> nat \<Rightarrow> nat \<Rightarrow> 'b world \<Rightarrow> error + (nat \<times> 'b world)" where
  "removeByKey_loop env k 0 removed w = Inr (removed, w)"
| "removeByKey_loop env k (Suc i) removed w =
     (case sounds w of
        None \<Rightarrow> Inl TypeError
      | Some xs \<Rightarrow>
          if i < length xs
          then (if key (heap w (xs ! i)) = k
                then removeByKey_loop env k i (removed + 1)
                       ((invoke env (xs ! i) Destroy w)\<lparr>sounds := Some (splice1 xs i)\<rparr>)
                else removeByKey_loop env k i removed w)
          else Inl TypeError)"

definition removeByKey :: "'b env \<Rightarrow> string \<Rightarrow> 'b world \<Rightarrow> error + (nat \<times> 'b world)" where
  "removeByKey env k w =
     (case sounds w of
        None \<Rightarrow> Inl TypeError
      | Some xs \<Rightarrow> removeByKey_loop env k (length xs) 0 w)"

definition pauseAll :: "'b env \<Rightarrow> 'b world \<Rightarrow> error + 'b world" where
  "pauseAll env w =
     (case forEachActiveSound (\<lambda>s. invoke env s Pause) w of
        Inl e \<Rightarrow> Inl e
      | Inr w' \<Rightarrow> dispatch (SoundEvent SOUND_PAUSE) w')"

definition resumeAll :: "'b env \<Rightarrow> 'b world \<Rightarrow> error + 'b world" where
  "resumeAll env w =
     (case forEachActiveSound (\<lambda>s. invoke env s Resume) w of
        Inl e \<Rightarrow> Inl e
      | Inr w' \<Rightarrow> dispatch (SoundEvent SOUND_RESUME) w')"

definition stopAll :: "'b env \<Rightarrow> 'b world \<Rightarrow> error + 'b world" where
  "stopAll env w =
     (case forEachActiveSound (\<lambda>s. invoke env s Stop) w of
        Inl e \<Rightarrow> Inl e
      | Inr w' \<Rightarrow> dispatch (SoundEvent SOUND_STOP) w')"

text \<open>\<^verbatim>\<open>onBlur\<close> and \<^verbatim>\<open>onFocus\<close> do nothing here; that they were invoked is recorded.\<close>

definition onBlur :: "'b world \<Rightarrow> 'b world" where
  "onBlur w = w\<lparr>trace := trace w @ [ManagerHook OnBlur]\<rparr>"

definition onFocus :: "'b world \<Rightarrow> 'b world" where
  "onFocus w = w\<lparr>trace := trace w @ [ManagerHook OnFocus]\<rparr>"

text \<open>
  The first loop of \<^verbatim>\<open>update\<close>, from the last index down; the round for \<open>Suc i\<close> visits
  index \<open>i\<close>.
\<close>

fun update_loop :: "nat \<Rightarrow> 'b world \<Rightarrow> error + 'b world" where
  "update_loop 0 w = Inr w"
| "update_loop (Suc i) w =
     (case sounds w of
        None \<Rightarrow> Inl TypeError
      | Some xs \<Rightarrow>
          if i < length xs
          then (if pendingRemove (heap w (xs ! i))
                then update_loop i (w\<lparr>sounds := Some (splice1 xs i)\<rparr>)
                else update_loop i w)
          else Inl TypeError)"

definition update :: "'b env \<Rightarrow> num \<Rightarrow> num \<Rightarrow> 'b world \<Rightarrow> error + 'b world" where
  "update env time delta w =
     (case sounds w of
        None \<Rightarrow> Inl TypeError
      | Some xs \<Rightarrow>
          (case update_loop (length xs) w of
             Inl e \<Rightarrow> Inl e
           | Inr w1 \<Rightarrow>
               (case sounds w1 of
                  None \<Rightarrow> Inl TypeError
                | Some ys \<Rightarrow> Inr (fold (\<lambda>s. invoke env s (Update time delta)) ys w1))))"

definition destroy :: "'b env \<Rightarrow> 'b world \<Rightarrow> error + 'b world" where
  "destroy env w =
     (case events w of
        None \<Rightarrow> Inl TypeError
      | Some ch \<Rightarrow>
          (case forEachActiveSound (\<lambda>s. invoke env s Destroy)
                  (w\<lparr>game := None, trace := trace w @ [EventsDestroy], events := None\<rparr>) of
             Inl e \<Rightarrow> Inl e
           | Inr w' \<Rightarrow> Inr (w'\<lparr>sounds := None\<rparr>)))"

text \<open>
  Modelled from the spec: \<^verbatim>\<open>game.events\<close> is the application's signal channel, outside
  this file. \<^verbatim>\<open>on\<close> adds a subscription that stays; delivering a signal runs the
  listeners subscribed to it, in subscription order. The listeners' bodies are the two
  closures of the constructor.
\<close>

definition game_events_on :: "signal \<Rightarrow> listener \<Rightarrow> 'b world \<Rightarrow> 'b world" where
  "game_events_on sg l w = w\<lparr>game_listeners := game_listeners w @ [(sg, l)]\<rparr>"

fun listener_body :: "listener \<Rightarrow> 'b world \<Rightarrow> 'b world" where
  "listener_body BlurListener w = (if pauseOnBlur w then onBlur w else w)"
| "listener_body FocusListener w = (if pauseOnBlur w then onFocus w else w)"

definition deliver :: "signal \<Rightarrow> 'b world \<Rightarrow> 'b world" where
  "deliver sg w =
     fold (\<lambda>sl v. if fst sl = sg then listener_body (snd sl) v else v) (game_listeners w) w"

text \<open>
  The constructor. \<^verbatim>\<open>this.rate = 1\<close> and \<^verbatim>\<open>this.detune = 0\<close> go through the accessors
  defined on the prototype.
\<close>

definition initialize :: "'b env \<Rightarrow> 'b world \<Rightarrow> error + 'b world" where
  "initialize env w =
     (case set_rate env 1
             (w\<lparr>game := Some Game, events := Some EventDispatcher, sounds := Some [],
                mute := False, volume := 1\<rparr>) of
        Inl e \<Rightarrow> Inl e
      | Inr w1 \<Rightarrow>
          (case set_detune env 0 w1 of
             Inl e \<Rightarrow> Inl e
           | Inr w2 \<Rightarrow>
               Inr ((game_events_on ON_FOCUS FocusListener
                      (game_events_on ON_BLUR BlurListener (w2\<lparr>pauseOnBlur := True\<rparr>)))
                    \<lparr>rate_field := 1, detune_field := 0\<rparr>)))"

section \<open>Concrete states for the examples\<close>

text \<open>
  A backend whose \<^verbatim>\<open>destroy\<close> raises \<^verbatim>\<open>pendingRemove\<close> and whose other methods leave
  the sound as it is, with one audio sprite in the cache.
\<close>

definition demo_env :: "unit env" where
  "demo_env =
     \<lparr>sound_method = (\<lambda>c g s. if c = Destroy then s\<lparr>pendingRemove := True\<rparr> else s),
      create = (\<lambda>k cfg. ()),
      cache_json = (\<lambda>k. if k = ''sprites''
                         then Some \<lparr>j_spritemap = Some
                                [\<lparr>sp_name = ''intro'', sp_own = True, sp_start = 0, sp_end = 2\<rparr>,
                                 \<lparr>sp_name = ''loop'', sp_own = True, sp_start = 2, sp_end = 5\<rparr>,
                                 \<lparr>sp_name = ''extend'', sp_own = False, sp_start = 0, sp_end = 0\<rparr>]\<rparr>
                         else None),
      js_minus = (\<lambda>a b. a - b)\<rparr>"

text \<open>A backend whose sounds keyed \<open>''blip''\<close> end, and raise the flag, in their own tick.\<close>

definition blip_env :: "unit env" where
  "blip_env =
     \<lparr>sound_method = (\<lambda>c g s. case c of
                   Update t d \<Rightarrow> if key s = ''blip'' then s\<lparr>pendingRemove := True\<rparr> else s
                 | _ \<Rightarrow> s),
      create = (\<lambda>k cfg. ()),
      cache_json = (\<lambda>k. None),
      js_minus = (\<lambda>a b. a - b)\<rparr>"

text \<open>
  A constructed manager whose registry is \<open>[0, 1, ...]\<close>, sound \<open>i\<close> having the \<open>i\<close>-th
  key and flag of the list.
\<close>

definition demo_sound :: "string \<times> bool \<Rightarrow> unit sound" where
  "demo_sound kf = \<lparr>key = fst kf, pendingRemove = snd kf, spritemap = None, backend = ()\<rparr>"

definition demo_world :: "(string \<times> bool) list \<Rightarrow> unit world" where
  "demo_world kfs =
     \<lparr>game = Some Game, events = Some EventDispatcher, sounds = Some [0 ..< length kfs],
      mute = False, volume = 1, pauseOnBlur = True, rate_field = 1, detune_field = 0,
      heap = (\<lambda>s. if s < length kfs then demo_sound (kfs ! s) else demo_sound ([], True)),
      next_sid = length kfs,
      ended_once = (\<lambda>s. []),
      game_listeners = [(ON_BLUR, BlurListener), (ON_FOCUS, FocusListener)],
      trace = []\<rparr>"

text \<open>The state before any manager exists.\<close>

definition blank :: "unit world" where
  "blank =
     \<lparr>game = None, events = None, sounds = None,
      mute = False, volume = 0, pauseOnBlur = False, rate_field = 0, detune_field = 0,
      heap = (\<lambda>s. demo_sound ([], False)),
      next_sid = 0,
      ended_once = (\<lambda>s. []),
      game_listeners = [],
      trace = []\<rparr>"

section \<open>Iterating over the active sounds\<close>

text \<open>The sounds of a registry whose flag is clear in a given state.\<close>

definition active :: "'b world \<Rightarrow> sid list \<Rightarrow> sid list" where
  "active w xs = filter (\<lambda>s. \<not> pendingRemove (heap w s)) xs"

text \<open>The sounds of a registry whose key is, or is not, a given key in a given state.\<close>

definition keyed :: "'b world \<Rightarrow> string \<Rightarrow> sid list \<Rightarrow> sid list" where
  "keyed w k xs = filter (\<lambda>s. key (heap w s) = k) xs"

definition unkeyed :: "'b world \<Rightarrow> string \<Rightarrow> sid list \<Rightarrow> sid list" where
  "unkeyed w k xs = filter (\<lambda>s. key (heap w s) \<noteq> k) xs"

text \<open>How many times \<^verbatim>\<open>destroy\<close> has been invoked on a sound so far.\<close>

definition destroyed_times :: "'b world \<Rightarrow> sid \<Rightarrow> nat" where
  "destroyed_times w s = count_list (trace w) (SoundCall s Destroy)"

section \<open>Sequences of operations on the registry\<close>

text \<open>
  The operations that put sounds into the registry or take them out: \<^verbatim>\<open>add\<close>,
  fire-and-forget \<^verbatim>\<open>play\<close>, \<^verbatim>\<open>remove\<close>, \<^verbatim>\<open>removeByKey\<close>, the per-frame
  \<^verbatim>\<open>update\<close>, and a sound signalling \<^verbatim>\<open>SOUND_ENDED\<close> (which runs its one-shot
  subscriptions).
\<close>

datatype op =
    OpAdd string "config option"
  | OpPlay string jsval
  | OpRemove sid
  | OpRemoveByKey string
  | OpUpdate num num
  | OpEnded sid

text \<open>
  What the caller can count from the outside: sounds added, sounds removed as reported by
  \<^verbatim>\<open>remove\<close> (true) and \<^verbatim>\<open>removeByKey\<close> (the number returned), and the sounds that had
  \<^verbatim>\<open>pendingRemove\<close> set in the registry when an \<^verbatim>\<open>update\<close> began.
\<close>

record tally =
  adds :: nat
  removes :: nat
  reaped :: "sid list"

fun step :: "'b env \<Rightarrow> op \<Rightarrow> 'b world \<times> tally \<Rightarrow> error + ('b world \<times> tally)" where
  "step env (OpAdd k cfg) (w, t) =
     (case add env k cfg w of
        Inl e \<Rightarrow> Inl e
      | Inr (s, w') \<Rightarrow> Inr (w', t\<lparr>adds := adds t + 1\<rparr>))"
| "step env (OpPlay k extra) (w, t) =
     (case play env k extra w of
        Inl e \<Rightarrow> Inl e
      | Inr w' \<Rightarrow> Inr (w', t\<lparr>adds := adds t + 1\<rparr>))"
| "step env (OpRemove s) (w, t) =
     (case remove env s w of
        Inl e \<Rightarrow> Inl e
      | Inr (b, w') \<Rightarrow> Inr (w', if b then t\<lparr>removes := removes t + 1\<rparr> else t))"
| "step env (OpRemoveByKey k) (w, t) =
     (case removeByKey env k w of
        Inl e \<Rightarrow> Inl e
      | Inr (n, w') \<Rightarrow> Inr (w', t\<lparr>removes := removes t + n\<rparr>))"
| "step env (OpUpdate time delta) (w, t) =
     (case update env time delta w of
        Inl e \<Rightarrow> Inl e
      | Inr w' \<Rightarrow>
          Inr (w', t\<lparr>reaped := reaped t @
                 (case sounds w of
                    None \<Rightarrow> []
                  | Some xs \<Rightarrow> filter (\<lambda>s. pendingRemove (heap w s)) xs)\<rparr>))"
| "step env (OpEnded s) (w, t) = Inr (emit_ended env s w, t)"

fun run :: "'b env \<Rightarrow> op list \<Rightarrow> 'b world \<times> tally \<Rightarrow> error + ('b world \<times> tally)" where
  "run env [] st = Inr st"
| "run env (x # xs) st =
     (case step env x st of
        Inl e \<Rightarrow> Inl e
      | Inr st' \<Rightarrow> run env xs st')"

text \<open>
  The invariant of the registry, for sounds created from identity \<open>base\<close> on: every
  registered sound is registered once and was created by \<^verbatim>\<open>add\<close>; the sizes add up; a
  sound that \<^verbatim>\<open>update\<close> took out was created and is not registered; every other created
  sound that is not registered has been destroyed.
\<close>

definition registry_inv :: "nat \<Rightarrow> 'b world \<Rightarrow> tally \<Rightarrow> sid list \<Rightarrow> bool" where
  "registry_inv base w t xs \<longleftrightarrow>
     sounds w = Some xs \<and> distinct xs \<and> base \<le> next_sid w \<and>
     length xs + removes t + length (reaped t) = adds t \<and>
     (\<forall>s \<in> set xs. base \<le> s \<and> s < next_sid w) \<and>
     (\<forall>s \<in> set (reaped t). base \<le> s \<and> s < next_sid w \<and> s \<notin> set xs) \<and>
     (\<forall>s. base \<le> s \<longrightarrow> s < next_sid w \<longrightarrow> s \<notin> set xs \<longrightarrow>
          0 < destroyed_times w s \<or> s \<in> set (reaped t))"

section \<open>Basic facts about invoking sound methods\<close>

lemma invoke_fields [simp]:
  "game (invoke env s c w) = game w"
  "events (invoke env s c w) = events w"
  "sounds (invoke env s c w) = sounds w"
  "mute (invoke env s c w) = mute w"
  "volume (invoke env s c w) = volume w"
  "pauseOnBlur (invoke env s c w) = pauseOnBlur w"
  "rate_field (invoke env s c w) = rate_field w"
  "detune_field (invoke env s c w) = detune_field w"
  "next_sid (invoke env s c w) = next_sid w"
  "ended_once (invoke env s c w) = ended_once w"
  "game_listeners (invoke env s c w) = game_listeners w"
  "globals_of (invoke env s c w) = globals_of w"
  by (simp_all add: invoke_def globals_of_def)

lemma invoke_trace [simp]: "trace (invoke env s c w) = trace w @ [SoundCall s c]"
  by (simp add: invoke_def)

lemma invoke_heap [simp]:
  "heap (invoke env s c w) t = (if t = s then sound_method env c (globals_of w) (heap w s) else heap w t)"
  by (simp add: invoke_def)

lemma active_Nil [simp]: "active w [] = []"
  by (simp add: active_def)

lemma active_Cons [simp]:
  "active w (s # ss) = (if pendingRemove (heap w s) then active w ss else s # active w ss)"
  by (simp add: active_def)

lemma active_cong_heap:
  "(\<And>t. t \<in> set xs \<Longrightarrow> pendingRemove (heap w' t) = pendingRemove (heap w t)) \<Longrightarrow> active w' xs = active w xs"
  unfolding active_def by (rule filter_cong) auto

lemma forEach_invoke_fields [simp]:
  "game (forEach_active (\<lambda>s. invoke env s c) xs w) = game w"
  "events (forEach_active (\<lambda>s. invoke env s c) xs w) = events w"
  "sounds (forEach_active (\<lambda>s. invoke env s c) xs w) = sounds w"
  "mute (forEach_active (\<lambda>s. invoke env s c) xs w) = mute w"
  "volume (forEach_active (\<lambda>s. invoke env s c) xs w) = volume w"
  "pauseOnBlur (forEach_active (\<lambda>s. invoke env s c) xs w) = pauseOnBlur w"
  "rate_field (forEach_active (\<lambda>s. invoke env s c) xs w) = rate_field w"
  "detune_field (forEach_active (\<lambda>s. invoke env s c) xs w) = detune_field w"
  "next_sid (forEach_active (\<lambda>s. invoke env s c) xs w) = next_sid w"
  "ended_once (forEach_active (\<lambda>s. invoke env s c) xs w) = ended_once w"
  "game_listeners (forEach_active (\<lambda>s. invoke env s c) xs w) = game_listeners w"
  "globals_of (forEach_active (\<lambda>s. invoke env s c) xs w) = globals_of w"
  by (induction xs arbitrary: w; simp)+

lemma forEach_invoke_trace:
  "distinct xs \<Longrightarrow>
   trace (forEach_active (\<lambda>s. invoke env s c) xs w) = trace w @ map (\<lambda>s. SoundCall s c) (active w xs)"
proof (induction xs arbitrary: w)
  case Nil
  then show ?case by simp
next
  case (Cons s ss)
  have same: "active (invoke env s c w) ss = active w ss"
    using Cons.prems by (intro active_cong_heap) auto
  show ?case using Cons same by simp
qed

lemma forEach_invoke_heap:
  "distinct xs \<Longrightarrow>
   heap (forEach_active (\<lambda>s. invoke env s c) xs w) t =
     (if t \<in> set (active w xs) then sound_method env c (globals_of w) (heap w t) else heap w t)"
proof (induction xs arbitrary: w)
  case Nil
  then show ?case by simp
next
  case (Cons s ss)
  have same: "active (invoke env s c w) ss = active w ss"
    using Cons.prems by (intro active_cong_heap) auto
  have notin: "s \<notin> set (active w ss)"
    using Cons.prems by (simp add: active_def)
  show ?case using Cons same notin by auto
qed

section \<open>The \<^verbatim>\<open>rate\<close> and \<^verbatim>\<open>detune\<close> accessors\<close>

lemma active_rate_field [simp]: "active (w\<lparr>rate_field := v\<rparr>) xs = active w xs"
  by (simp add: active_def)

lemma active_detune_field [simp]: "active (w\<lparr>detune_field := v\<rparr>) xs = active w xs"
  by (simp add: active_def)

lemma globals_rate_field [simp]: "globals_of (w\<lparr>rate_field := v\<rparr>) = (globals_of w)\<lparr>g_rate := v\<rparr>"
  by (simp add: globals_of_def)

lemma globals_detune_field [simp]: "globals_of (w\<lparr>detune_field := v\<rparr>) = (globals_of w)\<lparr>g_detune := v\<rparr>"
  by (simp add: globals_of_def)

lemma set_rate_result:
  assumes "sounds w = Some xs" and "events w = Some ch"
  shows "set_rate env v w =
           Inr ((forEach_active (\<lambda>s. invoke env s SetRate) xs (w\<lparr>rate_field := v\<rparr>))
                  \<lparr>trace := trace (forEach_active (\<lambda>s. invoke env s SetRate) xs (w\<lparr>rate_field := v\<rparr>))
                             @ [Dispatch (SoundValueEvent SOUND_RATE v)]\<rparr>)"
  using assms by (simp add: set_rate_def forEachActiveSound_def dispatch_def)

lemma set_detune_result:
  assumes "sounds w = Some xs" and "events w = Some ch"
  shows "set_detune env v w =
           Inr ((forEach_active (\<lambda>s. invoke env s SetRate) xs (w\<lparr>detune_field := v\<rparr>))
                  \<lparr>trace := trace (forEach_active (\<lambda>s. invoke env s SetRate) xs (w\<lparr>detune_field := v\<rparr>))
                             @ [Dispatch (SoundValueEvent SOUND_DETUNE v)]\<rparr>)"
  using assms by (simp add: set_detune_def forEachActiveSound_def dispatch_def)

text \<open>
  Claim C1. On a manager that has not been destroyed and whose registry holds every sound
  once, writing \<^verbatim>\<open>rate\<close> with \<open>v\<close> returns normally in one step with all three effects
  done: a read of \<^verbatim>\<open>rate\<close> gives \<open>v\<close>; \<^verbatim>\<open>setRate\<close> was invoked on exactly the registered
  sounds whose \<^verbatim>\<open>pendingRemove\<close> flag was clear, in registry order, each of them seeing
  the new value already stored; and after these calls exactly one \<^verbatim>\<open>SOUND_RATE\<close> event
  carrying \<open>v\<close> was dispatched. The registry is unchanged. The same holds for
  \<^verbatim>\<open>detune\<close> with \<^verbatim>\<open>SOUND_DETUNE\<close>.
\<close>

theorem rate_detune_store_propagate_notify:
  assumes "sounds w = Some xs" and "events w = Some ch" and "distinct xs"
  shows "(\<exists>w'. set_rate env v w = Inr w' \<and> get_rate w' = v \<and> sounds w' = Some xs \<and>
            trace w' = trace w @ map (\<lambda>s. SoundCall s SetRate) (active w xs)
                         @ [Dispatch (SoundValueEvent SOUND_RATE v)] \<and>
            heap w' = (\<lambda>s. if s \<in> set (active w xs)
                            then sound_method env SetRate ((globals_of w)\<lparr>g_rate := v\<rparr>) (heap w s)
                            else heap w s)) \<and>
         (\<exists>w'. set_detune env v w = Inr w' \<and> get_detune w' = v \<and> sounds w' = Some xs \<and>
            trace w' = trace w @ map (\<lambda>s. SoundCall s SetRate) (active w xs)
                         @ [Dispatch (SoundValueEvent SOUND_DETUNE v)] \<and>
            heap w' = (\<lambda>s. if s \<in> set (active w xs)
                            then sound_method env SetRate ((globals_of w)\<lparr>g_detune := v\<rparr>) (heap w s)
                            else heap w s))"
proof (intro conjI)
  let ?r = "w\<lparr>rate_field := v\<rparr>"
  have "heap (forEach_active (\<lambda>s. invoke env s SetRate) xs ?r) =
          (\<lambda>s. if s \<in> set (active w xs)
                then sound_method env SetRate ((globals_of w)\<lparr>g_rate := v\<rparr>) (heap w s) else heap w s)"
    using assms(3) by (auto simp: forEach_invoke_heap)
  then show "\<exists>w'. set_rate env v w = Inr w' \<and> get_rate w' = v \<and> sounds w' = Some xs \<and>
            trace w' = trace w @ map (\<lambda>s. SoundCall s SetRate) (active w xs)
                         @ [Dispatch (SoundValueEvent SOUND_RATE v)] \<and>
            heap w' = (\<lambda>s. if s \<in> set (active w xs)
                            then sound_method env SetRate ((globals_of w)\<lparr>g_rate := v\<rparr>) (heap w s)
                            else heap w s)"
    using assms by (simp add: set_rate_result [OF assms(1,2)] get_rate_def forEach_invoke_trace)
next
  let ?d = "w\<lparr>detune_field := v\<rparr>"
  have "heap (forEach_active (\<lambda>s. invoke env s SetRate) xs ?d) =
          (\<lambda>s. if s \<in> set (active w xs)
                then sound_method env SetRate ((globals_of w)\<lparr>g_detune := v\<rparr>) (heap w s) else heap w s)"
    using assms(3) by (auto simp: forEach_invoke_heap)
  then show "\<exists>w'. set_detune env v w = Inr w' \<and> get_detune w' = v \<and> sounds w' = Some xs \<and>
            trace w' = trace w @ map (\<lambda>s. SoundCall s SetRate) (active w xs)
                         @ [Dispatch (SoundValueEvent SOUND_DETUNE v)] \<and>
            heap w' = (\<lambda>s. if s \<in> set (active w xs)
                            then sound_method env SetRate ((globals_of w)\<lparr>g_detune := v\<rparr>) (heap w s)
                            else heap w s)"
    using assms by (simp add: set_detune_result [OF assms(1,2)] get_detune_def forEach_invoke_trace)
qed

lemma demo_world_fields [simp]:
  "sounds (demo_world kfs) = Some [0 ..< length kfs]"
  "events (demo_world kfs) = Some EventDispatcher"
  "game (demo_world kfs) = Some Game"
  "trace (demo_world kfs) = []"
  "next_sid (demo_world kfs) = length kfs"
  "pauseOnBlur (demo_world kfs) = True"
  "s < length kfs \<Longrightarrow> heap (demo_world kfs) s = demo_sound (kfs ! s)"
  by (simp_all add: demo_world_def)

lemma demo_sound_fields [simp]:
  "key (demo_sound kf) = fst kf"
  "pendingRemove (demo_sound kf) = snd kf"
  by (simp_all add: demo_sound_def)

lemma upt_3: "[0 ..< 3] = [0, 1, 2]"
  by (simp add: upt_rec)

lemma upt_4: "[0 ..< 4] = [0, 1, 2, 3]"
  by (simp add: upt_rec)

text \<open>
  The example of the spec: two active sounds (\<open>0\<close>, \<open>2\<close>) and one with \<^verbatim>\<open>pendingRemove\<close>
  set (\<open>1\<close>); \<^verbatim>\<open>rate = 2.0\<close>.
\<close>

theorem rate_detune_store_propagate_notify_witness:
  "(\<exists>w'. set_rate demo_env 2 (demo_world [(''a'', False), (''b'', True), (''c'', False)]) = Inr w' \<and>
         get_rate w' = 2 \<and>
         trace w' = [SoundCall 0 SetRate, SoundCall 2 SetRate, Dispatch (SoundValueEvent SOUND_RATE 2)]) \<and>
   (\<exists>w'. set_detune demo_env 50 (demo_world [(''a'', False), (''b'', True), (''c'', False)]) = Inr w' \<and>
         get_detune w' = 50 \<and>
         trace w' = [SoundCall 0 SetRate, SoundCall 2 SetRate, Dispatch (SoundValueEvent SOUND_DETUNE 50)])"
proof -
  let ?w = "demo_world [(''a'', False), (''b'', True), (''c'', False)]"
  have s: "sounds ?w = Some [0, 1, 2]" by (simp add: upt_3)
  have e: "events ?w = Some EventDispatcher" by simp
  have d: "distinct [0::nat, 1, 2]" by simp
  have a: "active ?w [0, 1, 2] = [0, 2]" by simp
  show ?thesis
    using rate_detune_store_propagate_notify [OF s e d, where env = demo_env and v = 2]
          rate_detune_store_propagate_notify [OF s e d, where env = demo_env and v = 50]
    unfolding a by auto
qed

section \<open>Bulk transport controls\<close>

lemma forEach_then_dispatch:
  assumes "sounds w = Some xs" and "events w = Some ch" and "distinct xs"
  shows "\<exists>w'. (case forEachActiveSound (\<lambda>s. invoke env s c) w of
                  Inl e \<Rightarrow> Inl e
                | Inr w1 \<Rightarrow> dispatch ev w1) = Inr w' \<and>
              sounds w' = Some xs \<and> events w' = Some ch \<and>
              trace w' = trace w @ map (\<lambda>s. SoundCall s c) (active w xs) @ [Dispatch ev] \<and>
              heap w' = (\<lambda>s. if s \<in> set (active w xs)
                              then sound_method env c (globals_of w) (heap w s)
                              else heap w s)"
proof -
  have "heap (forEach_active (\<lambda>s. invoke env s c) xs w) =
          (\<lambda>s. if s \<in> set (active w xs)
                then sound_method env c (globals_of w) (heap w s) else heap w s)"
    using assms(3) by (auto simp: forEach_invoke_heap)
  then show ?thesis
    using assms by (simp add: forEachActiveSound_def dispatch_def forEach_invoke_trace)
qed

text \<open>
  Claim C3. On a manager that has not been destroyed and whose registry holds every sound
  once, \<^verbatim>\<open>pauseAll\<close>, \<^verbatim>\<open>resumeAll\<close> and \<^verbatim>\<open>stopAll\<close> return normally; each invokes its
  transport method (\<^verbatim>\<open>pause\<close>, \<^verbatim>\<open>resume\<close>, \<^verbatim>\<open>stop\<close>) on exactly the registered sounds
  whose \<^verbatim>\<open>pendingRemove\<close> flag is clear, in registry order, and then dispatches exactly one
  event (\<^verbatim>\<open>SOUND_PAUSE\<close>, \<^verbatim>\<open>SOUND_RESUME\<close>, \<^verbatim>\<open>SOUND_STOP\<close>), whatever the number of
  sounds reached. With no active sound the event is the only effect.
\<close>

theorem bulk_controls_active_then_one_event:
  assumes "sounds w = Some xs" and "events w = Some ch" and "distinct xs"
  shows "(\<exists>w'. pauseAll env w = Inr w' \<and> sounds w' = Some xs \<and> events w' = Some ch \<and>
            trace w' = trace w @ map (\<lambda>s. SoundCall s Pause) (active w xs)
                         @ [Dispatch (SoundEvent SOUND_PAUSE)] \<and>
            heap w' = (\<lambda>s. if s \<in> set (active w xs)
                            then sound_method env Pause (globals_of w) (heap w s) else heap w s)) \<and>
         (\<exists>w'. resumeAll env w = Inr w' \<and> sounds w' = Some xs \<and> events w' = Some ch \<and>
            trace w' = trace w @ map (\<lambda>s. SoundCall s Resume) (active w xs)
                         @ [Dispatch (SoundEvent SOUND_RESUME)] \<and>
            heap w' = (\<lambda>s. if s \<in> set (active w xs)
                            then sound_method env Resume (globals_of w) (heap w s) else heap w s)) \<and>
         (\<exists>w'. stopAll env w = Inr w' \<and> sounds w' = Some xs \<and> events w' = Some ch \<and>
            trace w' = trace w @ map (\<lambda>s. SoundCall s Stop) (active w xs)
                         @ [Dispatch (SoundEvent SOUND_STOP)] \<and>
            heap w' = (\<lambda>s. if s \<in> set (active w xs)
                            then sound_method env Stop (globals_of w) (heap w s) else heap w s))"
  unfolding pauseAll_def resumeAll_def stopAll_def
  using forEach_then_dispatch [OF assms, where env = env and c = Pause and ev = "SoundEvent SOUND_PAUSE"]
        forEach_then_dispatch [OF assms, where env = env and c = Resume and ev = "SoundEvent SOUND_RESUME"]
        forEach_then_dispatch [OF assms, where env = env and c = Stop and ev = "SoundEvent SOUND_STOP"]
  by (intro conjI) assumption+

text \<open>
  The example of the spec, three active sounds and one with \<^verbatim>\<open>pendingRemove\<close> set, and a
  registry whose only sound has the flag set.
\<close>

theorem bulk_controls_active_then_one_event_witness:
  "(\<exists>w'. pauseAll demo_env
            (demo_world [(''a'', False), (''b'', False), (''c'', True), (''d'', False)]) = Inr w' \<and>
         trace w' = [SoundCall 0 Pause, SoundCall 1 Pause, SoundCall 3 Pause,
                     Dispatch (SoundEvent SOUND_PAUSE)]) \<and>
   (\<exists>w'. resumeAll demo_env
            (demo_world [(''a'', False), (''b'', False), (''c'', True), (''d'', False)]) = Inr w' \<and>
         trace w' = [SoundCall 0 Resume, SoundCall 1 Resume, SoundCall 3 Resume,
                     Dispatch (SoundEvent SOUND_RESUME)]) \<and>
   (\<exists>w'. stopAll demo_env
            (demo_world [(''a'', False), (''b'', False), (''c'', True), (''d'', False)]) = Inr w' \<and>
         trace w' = [SoundCall 0 Stop, SoundCall 1 Stop, SoundCall 3 Stop,
                     Dispatch (SoundEvent SOUND_STOP)])"
proof -
  let ?w = "demo_world [(''a'', False), (''b'', False), (''c'', True), (''d'', False)]"
  have s: "sounds ?w = Some [0, 1, 2, 3]" by (simp add: upt_4)
  have e: "events ?w = Some EventDispatcher" by simp
  have d: "distinct [0::nat, 1, 2, 3]" by simp
  have a: "active ?w [0, 1, 2, 3] = [0, 1, 3]" by simp
  show ?thesis
    using bulk_controls_active_then_one_event [OF s e d, where env = demo_env]
    unfolding a by auto
qed

section \<open>The per-frame update\<close>

lemma active_sounds_field [simp]: "active (w\<lparr>sounds := x\<rparr>) xs = active w xs"
  by (simp add: active_def)

lemma active_append [simp]: "active w (xs @ ys) = active w xs @ active w ys"
  by (simp add: active_def)

lemma take_splice1 [simp]: "i \<le> length xs \<Longrightarrow> take i (splice1 xs i) = take i xs"
  by (simp add: splice1_def)

lemma drop_splice1 [simp]: "i \<le> length xs \<Longrightarrow> drop i (splice1 xs i) = drop (Suc i) xs"
  by (simp add: splice1_def)

lemma length_splice1 [simp]: "i < length xs \<Longrightarrow> length (splice1 xs i) = length xs - 1"
  by (simp add: splice1_def)

lemma update_loop_result:
  "sounds w = Some xs \<Longrightarrow> n \<le> length xs \<Longrightarrow>
   update_loop n w = Inr (w\<lparr>sounds := Some (active w (take n xs) @ drop n xs)\<rparr>)"
proof (induction n arbitrary: w xs)
  case 0
  then show ?case by simp
next
  case (Suc i)
  then have i: "i < length xs" by simp
  show ?case
  proof (cases "pendingRemove (heap w (xs ! i))")
    case True
    let ?w1 = "w\<lparr>sounds := Some (splice1 xs i)\<rparr>"
    have "update_loop i ?w1 =
            Inr (?w1\<lparr>sounds := Some (active ?w1 (take i (splice1 xs i)) @ drop i (splice1 xs i))\<rparr>)"
      using i by (intro Suc.IH) simp_all
    then show ?thesis
      using Suc.prems i True by (simp add: take_Suc_conv_app_nth)
  next
    case False
    have "update_loop i w = Inr (w\<lparr>sounds := Some (active w (take i xs) @ drop i xs)\<rparr>)"
      using Suc.prems i by (intro Suc.IH) simp_all
    then show ?thesis
      using Suc.prems i False by (simp add: take_Suc_conv_app_nth Cons_nth_drop_Suc)
  qed
qed

lemma fold_invoke_fields [simp]:
  "sounds (fold (\<lambda>s. invoke env s c) ys w) = sounds w"
  "events (fold (\<lambda>s. invoke env s c) ys w) = events w"
  "game (fold (\<lambda>s. invoke env s c) ys w) = game w"
  "next_sid (fold (\<lambda>s. invoke env s c) ys w) = next_sid w"
  "ended_once (fold (\<lambda>s. invoke env s c) ys w) = ended_once w"
  "game_listeners (fold (\<lambda>s. invoke env s c) ys w) = game_listeners w"
  "globals_of (fold (\<lambda>s. invoke env s c) ys w) = globals_of w"
  by (induction ys arbitrary: w; simp)+

lemma fold_invoke_trace [simp]:
  "trace (fold (\<lambda>s. invoke env s c) ys w) = trace w @ map (\<lambda>s. SoundCall s c) ys"
  by (induction ys arbitrary: w) simp_all

lemma fold_invoke_heap_other:
  "s \<notin> set ys \<Longrightarrow> heap (fold (\<lambda>s. invoke env s c) ys w) s = heap w s"
  by (induction ys arbitrary: w) simp_all

lemma fold_invoke_heap:
  "distinct ys \<Longrightarrow>
   heap (fold (\<lambda>s. invoke env s c) ys w) s =
     (if s \<in> set ys then sound_method env c (globals_of w) (heap w s) else heap w s)"
proof (induction ys arbitrary: w)
  case Nil
  then show ?case by simp
next
  case (Cons y ys)
  then show ?case by (auto simp: fold_invoke_heap_other)
qed

lemma update_result:
  assumes "sounds w = Some xs"
  shows "update env time delta w =
           Inr (fold (\<lambda>s. invoke env s (Update time delta)) (active w xs)
                  (w\<lparr>sounds := Some (active w xs)\<rparr>))"
  using assms update_loop_result [OF assms, of "length xs"] by (simp add: update_def)

lemma not_in_active: "pendingRemove (heap w s) \<Longrightarrow> s \<notin> set (active w xs)"
  by (simp add: active_def)

text \<open>
  Claim C2. On a manager that has not been destroyed, \<^verbatim>\<open>update(time, delta)\<close> returns
  normally. The registry afterwards is the old registry without the sounds whose
  \<^verbatim>\<open>pendingRemove\<close> flag was set at entry, the others in their old relative order. The only
  effects are one \<^verbatim>\<open>update(time, delta)\<close> call per remaining registry entry, in that
  order, with the same two arguments: a reaped sound is neither destroyed nor ticked, and
  its state is untouched. A sound that was ticked and has its flag set after the call is
  still in the registry after this call; the next call of \<^verbatim>\<open>update\<close> takes it out and
  makes no call on it.
\<close>

theorem update_reaps_then_ticks:
  assumes "sounds w = Some xs"
  shows "\<exists>w'. update env time delta w = Inr w' \<and>
           sounds w' = Some (active w xs) \<and>
           trace w' = trace w @ map (\<lambda>s. SoundCall s (Update time delta)) (active w xs) \<and>
           (\<forall>s. s \<notin> set (active w xs) \<longrightarrow> heap w' s = heap w s) \<and>
           (distinct xs \<longrightarrow>
              (\<forall>s \<in> set (active w xs).
                 heap w' s = sound_method env (Update time delta) (globals_of w) (heap w s))) \<and>
           (\<forall>s \<in> set (active w xs). pendingRemove (heap w' s) \<longrightarrow>
              (\<forall>time' delta'. \<exists>w'' ys.
                 update env time' delta' w' = Inr w'' \<and> sounds w'' = Some ys \<and>
                 s \<notin> set ys \<and> set ys \<subseteq> set (active w xs) \<and>
                 trace w'' = trace w' @ map (\<lambda>s. SoundCall s (Update time' delta')) ys))"
proof -
  let ?ys = "active w xs"
  let ?w' = "fold (\<lambda>s. invoke env s (Update time delta)) ?ys (w\<lparr>sounds := Some ?ys\<rparr>)"
  have run: "update env time delta w = Inr ?w'"
    by (rule update_result [OF assms])
  have reg: "sounds ?w' = Some ?ys" by simp
  have tr: "trace ?w' = trace w @ map (\<lambda>s. SoundCall s (Update time delta)) ?ys" by simp
  have other: "\<forall>s. s \<notin> set ?ys \<longrightarrow> heap ?w' s = heap w s"
    by (simp add: fold_invoke_heap_other)
  have ticked: "distinct xs \<longrightarrow>
      (\<forall>s \<in> set ?ys. heap ?w' s = sound_method env (Update time delta) (globals_of w) (heap w s))"
  proof
    assume "distinct xs"
    then have "distinct ?ys" by (simp add: active_def)
    then show "\<forall>s \<in> set ?ys.
        heap ?w' s = sound_method env (Update time delta) (globals_of w) (heap w s)"
      by (simp add: fold_invoke_heap globals_of_def)
  qed
  have later: "\<forall>s \<in> set ?ys. pendingRemove (heap ?w' s) \<longrightarrow>
      (\<forall>time' delta'. \<exists>w'' ys.
         update env time' delta' ?w' = Inr w'' \<and> sounds w'' = Some ys \<and>
         s \<notin> set ys \<and> set ys \<subseteq> set ?ys \<and>
         trace w'' = trace ?w' @ map (\<lambda>s. SoundCall s (Update time' delta')) ys)"
  proof (intro ballI impI allI)
    fix s time' delta'
    assume flagged: "pendingRemove (heap ?w' s)"
    let ?zs = "active ?w' ?ys"
    let ?w'' = "fold (\<lambda>s. invoke env s (Update time' delta')) ?zs (?w'\<lparr>sounds := Some ?zs\<rparr>)"
    have "update env time' delta' ?w' = Inr ?w''"
      by (rule update_result [OF reg])
    moreover have "sounds ?w'' = Some ?zs" by simp
    moreover have "s \<notin> set ?zs" using flagged by (rule not_in_active)
    moreover have "set ?zs \<subseteq> set ?ys" by (auto simp: active_def)
    moreover have "trace ?w'' = trace ?w' @ map (\<lambda>s. SoundCall s (Update time' delta')) ?zs"
      by simp
    ultimately show "\<exists>w'' ys.
         update env time' delta' ?w' = Inr w'' \<and> sounds w'' = Some ys \<and>
         s \<notin> set ys \<and> set ys \<subseteq> set ?ys \<and>
         trace w'' = trace ?w' @ map (\<lambda>s. SoundCall s (Update time' delta')) ys"
      by blast
  qed
  from run reg tr other ticked later show ?thesis by blast
qed

text \<open>
  Three sounds: \<open>0\<close> plays on, \<open>1\<close> has \<^verbatim>\<open>pendingRemove\<close> set at entry, \<open>2\<close> raises its
  flag in its own tick. The first frame reaps \<open>1\<close> and ticks \<open>0\<close> and \<open>2\<close>; the second
  frame reaps \<open>2\<close> and ticks \<open>0\<close>.
\<close>

theorem update_reaps_then_ticks_witness:
  "\<exists>w' w''.
     update blip_env 100 16 (demo_world [(''a'', False), (''gone'', True), (''blip'', False)]) = Inr w' \<and>
     sounds w' = Some [0, 2] \<and>
     trace w' = [SoundCall 0 (Update 100 16), SoundCall 2 (Update 100 16)] \<and>
     pendingRemove (heap w' 2) \<and>
     update blip_env 116 16 w' = Inr w'' \<and>
     sounds w'' = Some [0] \<and>
     trace w'' = trace w' @ [SoundCall 0 (Update 116 16)]"
proof -
  let ?w = "demo_world [(''a'', False), (''gone'', True), (''blip'', False)]"
  have s: "sounds ?w = Some [0, 1, 2]" by (simp add: upt_3)
  have a: "active ?w [0, 1, 2] = [0, 2]" by simp
  obtain w' where w':
    "update blip_env 100 16 ?w = Inr w'"
    "sounds w' = Some [0, 2]"
    "trace w' = [SoundCall 0 (Update 100 16), SoundCall 2 (Update 100 16)]"
    "heap w' 0 = sound_method blip_env (Update 100 16) (globals_of ?w) (heap ?w 0)"
    "heap w' 2 = sound_method blip_env (Update 100 16) (globals_of ?w) (heap ?w 2)"
    using update_reaps_then_ticks [OF s, where env = blip_env and time = 100 and delta = 16]
    unfolding a by auto
  have f0: "\<not> pendingRemove (heap w' 0)" and f2: "pendingRemove (heap w' 2)"
    using w'(4,5) by (simp_all add: blip_env_def)
  have a': "active w' [0, 2] = [0]"
    using f0 f2 by simp
  obtain w'' where
    "update blip_env 116 16 w' = Inr w''"
    "sounds w'' = Some [0]"
    "trace w'' = trace w' @ [SoundCall 0 (Update 116 16)]"
    using update_reaps_then_ticks [OF w'(2), where env = blip_env and time = 116 and delta = 16]
    unfolding a' by auto
  with w'(1,2,3) f2 show ?thesis by blast
qed

section \<open>\<^verbatim>\<open>remove\<close>\<close>

lemma indexOf_from_notin: "x \<notin> set xs \<Longrightarrow> indexOf_from xs x i = - 1"
  by (induction xs arbitrary: i) auto

lemma indexOf_from_in:
  "x \<in> set xs \<Longrightarrow>
   \<exists>n. indexOf_from xs x i = i + int n \<and> n < length xs \<and> xs ! n = x \<and> x \<notin> set (take n xs)"
proof (induction xs arbitrary: i)
  case Nil
  then show ?case by simp
next
  case (Cons y ys)
  show ?case
  proof (cases "y = x")
    case True
    then have "indexOf_from (y # ys) x i = i + int 0 \<and> 0 < length (y # ys) \<and>
               (y # ys) ! 0 = x \<and> x \<notin> set (take 0 (y # ys))"
      by simp
    then show ?thesis by blast
  next
    case False
    with Cons.prems have "x \<in> set ys" by simp
    from Cons.IH [OF this, of "i + 1"] obtain n where
      n: "indexOf_from ys x (i + 1) = i + 1 + int n" "n < length ys" "ys ! n = x" "x \<notin> set (take n ys)"
      by blast
    have "indexOf_from (y # ys) x i = i + int (Suc n) \<and> Suc n < length (y # ys) \<and>
          (y # ys) ! Suc n = x \<and> x \<notin> set (take (Suc n) (y # ys))"
      using n False by simp
    then show ?thesis by blast
  qed
qed

lemma splice1_first_occurrence:
  assumes "n < length xs" and "xs ! n = x" and "x \<notin> set (take n xs)"
  shows "splice1 xs n = remove1 x xs"
proof -
  have "xs = take n xs @ x # drop (Suc n) xs"
    using assms(1,2) by (metis id_take_nth_drop)
  then have "remove1 x xs = remove1 x (take n xs @ x # drop (Suc n) xs)" by simp
  also have "\<dots> = take n xs @ drop (Suc n) xs"
    using assms(3) by (simp add: remove1_append)
  finally show ?thesis by (simp add: splice1_def)
qed

lemma remove_present:
  assumes "sounds w = Some xs" and "s \<in> set xs"
  shows "remove env s w = Inr (True, (invoke env s Destroy w)\<lparr>sounds := Some (remove1 s xs)\<rparr>)"
proof -
  from indexOf_from_in [OF assms(2), of 0] obtain n where
    n: "indexOf xs s = int n" "n < length xs" "xs ! n = s" "s \<notin> set (take n xs)"
    by (auto simp: indexOf_def)
  have "splice1 xs (nat (indexOf xs s)) = remove1 s xs"
    using n by (simp add: splice1_first_occurrence)
  then show ?thesis
    using assms(1) n(1) by (simp add: remove_def)
qed

lemma remove_absent:
  assumes "sounds w = Some xs" and "s \<notin> set xs"
  shows "remove env s w = Inr (False, w)"
  using assms by (simp add: remove_def indexOf_def indexOf_from_notin)

text \<open>
  Claim C5. On a manager that has not been destroyed: if \<open>s\<close> is in the registry,
  \<^verbatim>\<open>remove(s)\<close> invokes \<^verbatim>\<open>destroy\<close> on \<open>s\<close>, takes its (first) entry out of the registry
  and returns true, changing nothing else; if \<open>s\<close> is not in the registry it returns false
  and the whole state is as before. When the registry holds every sound once, a second
  \<^verbatim>\<open>remove(s)\<close> after a successful one returns false and changes nothing.
\<close>

theorem remove_destroys_then_unregisters:
  assumes "sounds w = Some xs"
  shows "(s \<in> set xs \<longrightarrow>
            remove env s w = Inr (True, (invoke env s Destroy w)\<lparr>sounds := Some (remove1 s xs)\<rparr>) \<and>
            trace (invoke env s Destroy w) = trace w @ [SoundCall s Destroy]) \<and>
         (s \<notin> set xs \<longrightarrow> remove env s w = Inr (False, w)) \<and>
         (s \<in> set xs \<and> distinct xs \<longrightarrow>
            (\<exists>w'. remove env s w = Inr (True, w') \<and> remove env s w' = Inr (False, w')))"
proof (intro conjI impI)
  assume "s \<in> set xs"
  then show "remove env s w = Inr (True, (invoke env s Destroy w)\<lparr>sounds := Some (remove1 s xs)\<rparr>)"
    by (rule remove_present [OF assms])
next
  show "trace (invoke env s Destroy w) = trace w @ [SoundCall s Destroy]" by simp
next
  assume "s \<notin> set xs"
  then show "remove env s w = Inr (False, w)"
    by (rule remove_absent [OF assms])
next
  assume h: "s \<in> set xs \<and> distinct xs"
  let ?w' = "(invoke env s Destroy w)\<lparr>sounds := Some (remove1 s xs)\<rparr>"
  have first: "remove env s w = Inr (True, ?w')"
    using h by (intro remove_present [OF assms]) simp
  have "sounds ?w' = Some (remove1 s xs)" by simp
  moreover have "s \<notin> set (remove1 s xs)" using h by simp
  ultimately have "remove env s ?w' = Inr (False, ?w')"
    by (rule remove_absent)
  with first show "\<exists>w'. remove env s w = Inr (True, w') \<and> remove env s w' = Inr (False, w')"
    by blast
qed

text \<open>
  Registry \<open>[0, 1]\<close>: removing \<open>0\<close> succeeds with one \<^verbatim>\<open>destroy\<close> call, removing it again
  fails and changes nothing; removing a sound that was never registered fails at once.
\<close>

theorem remove_destroys_then_unregisters_witness:
  "\<exists>w'. remove demo_env 0 (demo_world [(''a'', False), (''b'', False)]) = Inr (True, w') \<and>
        sounds w' = Some [1] \<and> trace w' = [SoundCall 0 Destroy] \<and>
        remove demo_env 0 w' = Inr (False, w') \<and>
        remove demo_env 7 (demo_world [(''a'', False), (''b'', False)])
          = Inr (False, demo_world [(''a'', False), (''b'', False)])"
proof -
  let ?w = "demo_world [(''a'', False), (''b'', False)]"
  have s: "sounds ?w = Some [0, 1]" by (simp add: upt_rec)
  have in0: "(0::nat) \<in> set [0, 1]" and out7: "(7::nat) \<notin> set [0, 1]" and d: "distinct [0::nat, 1]"
    by simp_all
  note r0 = remove_destroys_then_unregisters [OF s, where env = demo_env and s = 0]
  note r7 = remove_destroys_then_unregisters [OF s, where env = demo_env and s = 7]
  let ?w' = "(invoke demo_env 0 Destroy ?w)\<lparr>sounds := Some (remove1 0 [0, 1])\<rparr>"
  have a: "remove demo_env 0 ?w = Inr (True, ?w')" using r0 in0 by blast
  have b: "remove demo_env 0 ?w' = Inr (False, ?w')" using r0 in0 d a by auto
  have c: "remove demo_env 7 ?w = Inr (False, ?w)" using r7 out7 by blast
  have "sounds ?w' = Some [1]" "trace ?w' = [SoundCall 0 Destroy]" by simp_all
  with a b c show ?thesis by blast
qed

section \<open>\<^verbatim>\<open>removeByKey\<close>\<close>

lemma keyed_Nil [simp]: "keyed w k [] = []"
  by (simp add: keyed_def)

lemma unkeyed_Nil [simp]: "unkeyed w k [] = []"
  by (simp add: unkeyed_def)

lemma keyed_append [simp]: "keyed w k (xs @ ys) = keyed w k xs @ keyed w k ys"
  by (simp add: keyed_def)

lemma unkeyed_append [simp]: "unkeyed w k (xs @ ys) = unkeyed w k xs @ unkeyed w k ys"
  by (simp add: unkeyed_def)

lemma keyed_single [simp]: "keyed w k [s] = (if key (heap w s) = k then [s] else [])"
  by (simp add: keyed_def)

lemma unkeyed_single [simp]: "unkeyed w k [s] = (if key (heap w s) = k then [] else [s])"
  by (simp add: unkeyed_def)

lemma keyed_cong_heap:
  "(\<And>t. t \<in> set xs \<Longrightarrow> key (heap w' t) = key (heap w t)) \<Longrightarrow> keyed w' k xs = keyed w k xs"
  unfolding keyed_def by (rule filter_cong) auto

lemma unkeyed_cong_heap:
  "(\<And>t. t \<in> set xs \<Longrightarrow> key (heap w' t) = key (heap w t)) \<Longrightarrow> unkeyed w' k xs = unkeyed w k xs"
  unfolding unkeyed_def by (rule filter_cong) auto

lemma nth_notin_take: "distinct xs \<Longrightarrow> i < length xs \<Longrightarrow> xs ! i \<notin> set (take i xs)"
  by (auto simp: in_set_conv_nth nth_eq_iff_index_eq)

lemma distinct_splice1: "distinct xs \<Longrightarrow> distinct (splice1 xs i)"
  using set_take_disj_set_drop_if_distinct [of xs i "Suc i"] by (simp add: splice1_def)

lemma fold_invoke_sounds_update:
  "fold (\<lambda>s. invoke env s c) ys (w\<lparr>sounds := x\<rparr>) = (fold (\<lambda>s. invoke env s c) ys w)\<lparr>sounds := x\<rparr>"
proof (induction ys arbitrary: w)
  case Nil
  then show ?case by simp
next
  case (Cons y ys)
  have "invoke env y c (w\<lparr>sounds := x\<rparr>) = (invoke env y c w)\<lparr>sounds := x\<rparr>"
    by (simp add: invoke_def globals_of_def)
  then show ?case using Cons.IH by simp
qed

lemma removeByKey_loop_result:
  "sounds w = Some xs \<Longrightarrow> distinct xs \<Longrightarrow> n \<le> length xs \<Longrightarrow>
   removeByKey_loop env k n removed w =
     Inr (removed + length (keyed w k (take n xs)),
          (fold (\<lambda>s. invoke env s Destroy) (rev (keyed w k (take n xs))) w)
            \<lparr>sounds := Some (unkeyed w k (take n xs) @ drop n xs)\<rparr>)"
proof (induction n arbitrary: w xs removed)
  case 0
  then show ?case by simp
next
  case (Suc i)
  then have i: "i < length xs" by simp
  let ?s = "xs ! i"
  have fresh: "?s \<notin> set (take i xs)"
    using Suc.prems(2) i by (rule nth_notin_take)
  show ?case
  proof (cases "key (heap w ?s) = k")
    case True
    let ?w1 = "(invoke env ?s Destroy w)\<lparr>sounds := Some (splice1 xs i)\<rparr>"
    have k1: "keyed ?w1 k (take i xs) = keyed w k (take i xs)"
      using fresh by (intro keyed_cong_heap) auto
    have u1: "unkeyed ?w1 k (take i xs) = unkeyed w k (take i xs)"
      using fresh by (intro unkeyed_cong_heap) auto
    have "removeByKey_loop env k i (removed + 1) ?w1 =
            Inr (removed + 1 + length (keyed ?w1 k (take i (splice1 xs i))),
                 (fold (\<lambda>s. invoke env s Destroy) (rev (keyed ?w1 k (take i (splice1 xs i)))) ?w1)
                   \<lparr>sounds := Some (unkeyed ?w1 k (take i (splice1 xs i)) @ drop i (splice1 xs i))\<rparr>)"
      using i Suc.prems(2) by (intro Suc.IH) (simp_all add: distinct_splice1)
    then show ?thesis
      using Suc.prems(1) i True k1 u1
      by (simp add: take_Suc_conv_app_nth fold_invoke_sounds_update)
  next
    case False
    have "removeByKey_loop env k i removed w =
            Inr (removed + length (keyed w k (take i xs)),
                 (fold (\<lambda>s. invoke env s Destroy) (rev (keyed w k (take i xs))) w)
                   \<lparr>sounds := Some (unkeyed w k (take i xs) @ drop i xs)\<rparr>)"
      using Suc.prems i by (intro Suc.IH) simp_all
    then show ?thesis
      using Suc.prems(1) i False
      by (simp add: take_Suc_conv_app_nth Cons_nth_drop_Suc)
  qed
qed

lemma removeByKey_result:
  assumes "sounds w = Some xs" and "distinct xs"
  shows "removeByKey env k w =
           Inr (length (keyed w k xs),
                (fold (\<lambda>s. invoke env s Destroy) (rev (keyed w k xs)) w)
                  \<lparr>sounds := Some (unkeyed w k xs)\<rparr>)"
  using assms removeByKey_loop_result [OF assms, of "length xs" env k 0]
  by (simp add: removeByKey_def)

text \<open>
  Claim C4. On a manager that has not been destroyed and whose registry holds every sound
  once, \<^verbatim>\<open>removeByKey(k)\<close> returns the number of registered sounds whose key is \<open>k\<close>;
  it invokes \<^verbatim>\<open>destroy\<close> once on each of them and on no other sound (from the last match
  to the first, the scan running from the end), none is missed whether or not matches are
  adjacent, and the registry afterwards is the old registry without them, the sounds with
  another key in their old relative order.
\<close>

theorem removeByKey_removes_exactly_the_matches:
  assumes "sounds w = Some xs" and "distinct xs"
  shows "\<exists>w'. removeByKey env k w = Inr (length (keyed w k xs), w') \<and>
           sounds w' = Some (unkeyed w k xs) \<and>
           trace w' = trace w @ map (\<lambda>s. SoundCall s Destroy) (rev (keyed w k xs)) \<and>
           heap w' = (\<lambda>s. if s \<in> set (keyed w k xs)
                           then sound_method env Destroy (globals_of w) (heap w s)
                           else heap w s)"
proof -
  let ?w' = "(fold (\<lambda>s. invoke env s Destroy) (rev (keyed w k xs)) w)\<lparr>sounds := Some (unkeyed w k xs)\<rparr>"
  have "distinct (rev (keyed w k xs))"
    using assms(2) by (simp add: keyed_def)
  then have "heap ?w' = (\<lambda>s. if s \<in> set (keyed w k xs)
                           then sound_method env Destroy (globals_of w) (heap w s)
                           else heap w s)"
    by (auto simp: fold_invoke_heap)
  moreover have "removeByKey env k w = Inr (length (keyed w k xs), ?w')"
    by (rule removeByKey_result [OF assms])
  moreover have "sounds ?w' = Some (unkeyed w k xs)" by simp
  moreover have "trace ?w' = trace w @ map (\<lambda>s. SoundCall s Destroy) (rev (keyed w k xs))" by simp
  ultimately show ?thesis by blast
qed

text \<open>
  The example of the spec: sounds keyed \<open>''x''\<close>, \<open>''y''\<close>, \<open>''x''\<close>; \<^verbatim>\<open>removeByKey("x")\<close>
  returns 2 and leaves the \<open>''y''\<close> sound alone in the registry. Two adjacent matches
  are both removed as well.
\<close>

theorem removeByKey_removes_exactly_the_matches_witness:
  "(\<exists>w'. removeByKey demo_env ''x'' (demo_world [(''x'', False), (''y'', False), (''x'', False)])
          = Inr (2, w') \<and>
         sounds w' = Some [1] \<and> key (heap w' 1) = ''y'' \<and>
         trace w' = [SoundCall 2 Destroy, SoundCall 0 Destroy]) \<and>
   (\<exists>w'. removeByKey demo_env ''x'' (demo_world [(''y'', False), (''x'', False), (''x'', False)])
          = Inr (2, w') \<and>
         sounds w' = Some [0] \<and>
         trace w' = [SoundCall 2 Destroy, SoundCall 1 Destroy])"
proof -
  let ?w = "demo_world [(''x'', False), (''y'', False), (''x'', False)]"
  let ?v = "demo_world [(''y'', False), (''x'', False), (''x'', False)]"
  have sw: "sounds ?w = Some [0, 1, 2]" and sv: "sounds ?v = Some [0, 1, 2]"
    by (simp_all add: upt_3)
  have d: "distinct [0::nat, 1, 2]" by simp
  have kw: "keyed ?w ''x'' [0, 1, 2] = [0, 2]" and uw: "unkeyed ?w ''x'' [0, 1, 2] = [1]"
    by (simp_all add: keyed_def unkeyed_def)
  have kv: "keyed ?v ''x'' [0, 1, 2] = [1, 2]" and uv: "unkeyed ?v ''x'' [0, 1, 2] = [0]"
    by (simp_all add: keyed_def unkeyed_def)
  show ?thesis
    using removeByKey_removes_exactly_the_matches [OF sw d, where env = demo_env and k = "''x''"]
          removeByKey_removes_exactly_the_matches [OF sv d, where env = demo_env and k = "''x''"]
    unfolding kw uw kv uv by auto
qed

section \<open>\<^verbatim>\<open>destroy\<close>\<close>

lemma active_released [simp]:
  "active (w\<lparr>game := g, trace := t, events := e\<rparr>) xs = active w xs"
  by (simp add: active_def)

lemma globals_released [simp]:
  "globals_of (w\<lparr>game := g, trace := t, events := e\<rparr>) = globals_of w"
  by (simp add: globals_of_def)

lemma destroy_result:
  assumes "sounds w = Some xs" and "events w = Some ch"
  shows "destroy env w =
           Inr ((forEach_active (\<lambda>s. invoke env s Destroy) xs
                   (w\<lparr>game := None, trace := trace w @ [EventsDestroy], events := None\<rparr>))
                \<lparr>sounds := None\<rparr>)"
  using assms by (simp add: destroy_def forEachActiveSound_def)

lemma count_list_calls:
  "distinct ys \<Longrightarrow>
   count_list (map (\<lambda>s. SoundCall s c) ys) (SoundCall t c) = (if t \<in> set ys then 1 else 0)"
  by (induction ys) auto

lemma distinct_active: "distinct xs \<Longrightarrow> distinct (active w xs)"
  by (simp add: active_def)

lemma in_active_iff: "s \<in> set (active w xs) \<longleftrightarrow> s \<in> set xs \<and> \<not> pendingRemove (heap w s)"
  by (auto simp: active_def)

lemma destroyed_times_invoke [simp]:
  "destroyed_times (invoke env s c w) t =
     destroyed_times w t + (if t = s \<and> c = Destroy then 1 else 0)"
  by (simp add: destroyed_times_def)

text \<open>
  Claim C6 as stated fails on the code. Two sounds are registered; sound \<open>1\<close> raises its
  own \<^verbatim>\<open>pendingRemove\<close> flag in its tick and is still registered after that \<^verbatim>\<open>update\<close>.
  \<^verbatim>\<open>destroy()\<close> then invokes \<^verbatim>\<open>destroy\<close> on sound \<open>0\<close> only: the registered sound
  \<open>1\<close> is left undestroyed.
\<close>

theorem destroy_skips_flagged_counterexample:
  "map_sum id sounds (update blip_env 0 16 (demo_world [(''a'', False), (''blip'', False)]))
     = Inr (Some [0, 1]) \<and>
   map_sum id trace
     (case_sum Inl (destroy blip_env)
        (update blip_env 0 16 (demo_world [(''a'', False), (''blip'', False)])))
     = Inr [SoundCall 0 (Update 0 16), SoundCall 1 (Update 0 16), EventsDestroy, SoundCall 0 Destroy]"
proof -
  let ?w = "demo_world [(''a'', False), (''blip'', False)]"
  let ?w1 = "fold (\<lambda>s. invoke blip_env s (Update 0 16)) [0, 1] (?w\<lparr>sounds := Some [0, 1]\<rparr>)"
  have s: "sounds ?w = Some [0, 1]" by (simp add: upt_rec)
  have a: "active ?w [0, 1] = [0, 1]" by simp
  have u: "update blip_env 0 16 ?w = Inr ?w1"
    using update_result [OF s, of blip_env 0 16] unfolding a .
  have f: "\<not> pendingRemove (heap ?w1 0)" "pendingRemove (heap ?w1 1)"
    by (simp_all add: blip_env_def)
  have d: "destroy blip_env ?w1 =
             Inr ((forEach_active (\<lambda>s. invoke blip_env s Destroy) [0, 1]
                     (?w1\<lparr>game := None, trace := trace ?w1 @ [EventsDestroy], events := None\<rparr>))
                  \<lparr>sounds := None\<rparr>)"
    by (rule destroy_result [where ch = EventDispatcher]) simp_all
  have t: "trace ((forEach_active (\<lambda>s. invoke blip_env s Destroy) [0, 1]
                     (?w1\<lparr>game := None, trace := trace ?w1 @ [EventsDestroy], events := None\<rparr>))
                  \<lparr>sounds := None\<rparr>)
           = [SoundCall 0 (Update 0 16), SoundCall 1 (Update 0 16), EventsDestroy, SoundCall 0 Destroy]"
    using f by (simp add: forEach_invoke_trace)
  have r: "sounds ?w1 = Some [0, 1]" by simp
  show ?thesis unfolding u by (simp only: sum.case map_sum.simps d t r id_apply simp_thms)
qed

text \<open>
  Claim C6, amended. On a manager that has not been destroyed and whose registry holds
  every sound once, \<^verbatim>\<open>destroy()\<close> returns normally with \<^verbatim>\<open>game\<close>, \<^verbatim>\<open>events\<close> and
  \<^verbatim>\<open>sounds\<close> released (\<^verbatim>\<open>null\<close>); it destroys the event channel and then invokes
  \<^verbatim>\<open>destroy\<close> exactly once on each registered sound whose \<^verbatim>\<open>pendingRemove\<close> flag is clear,
  in registry order, a fire-and-forget sound whose playback never ended among them, and on
  no other sound: a registered sound whose flag is set is skipped, so it is not destroyed
  a second time if it was destroyed before, and not destroyed at all if it was not.
\<close>

theorem destroy_releases_and_destroys_active_once:
  assumes "sounds w = Some xs" and "events w = Some ch" and "distinct xs"
  shows "\<exists>w'. destroy env w = Inr w' \<and>
           game w' = None \<and> events w' = None \<and> sounds w' = None \<and>
           trace w' = trace w @ EventsDestroy # map (\<lambda>s. SoundCall s Destroy) (active w xs) \<and>
           heap w' = (\<lambda>s. if s \<in> set (active w xs)
                           then sound_method env Destroy (globals_of w) (heap w s)
                           else heap w s) \<and>
           (\<forall>s. destroyed_times w' s =
                  destroyed_times w s + (if s \<in> set xs \<and> \<not> pendingRemove (heap w s) then 1 else 0))"
proof -
  let ?w0 = "w\<lparr>game := None, trace := trace w @ [EventsDestroy], events := None\<rparr>"
  let ?w' = "(forEach_active (\<lambda>s. invoke env s Destroy) xs ?w0)\<lparr>sounds := None\<rparr>"
  have run: "destroy env w = Inr ?w'"
    by (rule destroy_result [OF assms(1,2)])
  have tr: "trace ?w' = trace w @ EventsDestroy # map (\<lambda>s. SoundCall s Destroy) (active w xs)"
    using assms(3) by (simp add: forEach_invoke_trace)
  have hp: "heap ?w' = (\<lambda>s. if s \<in> set (active w xs)
                           then sound_method env Destroy (globals_of w) (heap w s)
                           else heap w s)"
    using assms(3) by (auto simp: forEach_invoke_heap)
  have cnt: "\<forall>s. destroyed_times ?w' s =
                  destroyed_times w s + (if s \<in> set xs \<and> \<not> pendingRemove (heap w s) then 1 else 0)"
  proof
    fix s
    have "destroyed_times ?w' s =
            destroyed_times w s + (if s \<in> set (active w xs) then 1 else 0)"
      unfolding destroyed_times_def tr
      using distinct_active [OF assms(3), of w] by (simp add: count_list_calls)
    then show "destroyed_times ?w' s =
                 destroyed_times w s + (if s \<in> set xs \<and> \<not> pendingRemove (heap w s) then 1 else 0)"
      by (simp add: in_active_iff)
  qed
  have "game ?w' = None" "events ?w' = None" "sounds ?w' = None" by simp_all
  with run tr hp cnt show ?thesis by blast
qed

text \<open>
  Two fire-and-forget sounds are played on an empty registry; \<open>1\<close> ends and is destroyed
  by its subscription, \<open>0\<close> never ends. \<^verbatim>\<open>destroy()\<close> destroys \<open>0\<close> and leaves \<open>1\<close>
  alone.
\<close>

theorem destroy_releases_and_destroys_active_once_witness:
  "\<exists>w1 w2 w'.
     play demo_env ''sfx'' JUndefined (demo_world []) = Inr w1 \<and>
     play demo_env ''sfx'' JUndefined w1 = Inr w2 \<and>
     destroy demo_env (emit_ended demo_env 1 w2) = Inr w' \<and>
     game w' = None \<and> events w' = None \<and> sounds w' = None \<and>
     trace w' = [SoundCall 0 (Play []), SoundCall 1 (Play []), SoundCall 1 Destroy,
                 EventsDestroy, SoundCall 0 Destroy] \<and>
     destroyed_times w' 0 = 1 \<and> destroyed_times w' 1 = 1"
proof -
  have "\<exists>w1 w2. play demo_env ''sfx'' JUndefined (demo_world []) = Inr w1 \<and>
          play demo_env ''sfx'' JUndefined w1 = Inr w2 \<and>
          sounds (emit_ended demo_env 1 w2) = Some [0, 1] \<and>
          events (emit_ended demo_env 1 w2) = Some EventDispatcher \<and>
          trace (emit_ended demo_env 1 w2) = [SoundCall 0 (Play []), SoundCall 1 (Play []), SoundCall 1 Destroy] \<and>
          \<not> pendingRemove (heap (emit_ended demo_env 1 w2) 0) \<and>
          pendingRemove (heap (emit_ended demo_env 1 w2) 1)"
    by (simp add: play_def add_def Let_def once_def invoke_def emit_ended_def demo_env_def
        demo_world_def globals_of_def)
  then obtain w1 w2 where
    p: "play demo_env ''sfx'' JUndefined (demo_world []) = Inr w1"
       "play demo_env ''sfx'' JUndefined w1 = Inr w2"
    and s: "sounds (emit_ended demo_env 1 w2) = Some [0, 1]"
    and e: "events (emit_ended demo_env 1 w2) = Some EventDispatcher"
    and t: "trace (emit_ended demo_env 1 w2) = [SoundCall 0 (Play []), SoundCall 1 (Play []), SoundCall 1 Destroy]"
    and f: "\<not> pendingRemove (heap (emit_ended demo_env 1 w2) 0)"
           "pendingRemove (heap (emit_ended demo_env 1 w2) 1)"
    by blast
  let ?w = "emit_ended demo_env 1 w2"
  have d: "distinct [0::nat, 1]" by simp
  have c: "destroyed_times ?w 0 = 0" "destroyed_times ?w 1 = 1"
    unfolding destroyed_times_def t by simp_all
  have a: "active ?w [0, 1] = [0]"
    using f by simp
  from destroy_releases_and_destroys_active_once [OF s e d, where env = demo_env]
  obtain w' where
    w': "destroy demo_env ?w = Inr w'" "game w' = None" "events w' = None" "sounds w' = None"
        "trace w' = trace ?w @ EventsDestroy # map (\<lambda>s. SoundCall s Destroy) (active ?w [0, 1])"
        "\<forall>s. destroyed_times w' s =
               destroyed_times ?w s + (if s \<in> set [0, 1] \<and> \<not> pendingRemove (heap ?w s) then 1 else 0)"
    by blast
  have "destroyed_times w' 0 = 1" "destroyed_times w' 1 = 1"
    using w'(6) c f by simp_all
  with p w'(1-5) show ?thesis unfolding a t by auto
qed

section \<open>Construction, and the blur and focus subscriptions\<close>

lemma initialize_result:
  "initialize env w =
     Inr (w\<lparr>game := Some Game, events := Some EventDispatcher, sounds := Some [],
            mute := False, volume := 1, pauseOnBlur := True, rate_field := 1, detune_field := 0,
            game_listeners := game_listeners w @ [(ON_BLUR, BlurListener), (ON_FOCUS, FocusListener)],
            trace := trace w @ [Dispatch (SoundValueEvent SOUND_RATE 1),
                                Dispatch (SoundValueEvent SOUND_DETUNE 0)]\<rparr>)"
  by (simp add: initialize_def set_rate_def set_detune_def forEachActiveSound_def dispatch_def
      game_events_on_def)

lemma destroy_fresh_manager:
  assumes "sounds w = Some []" and "events w = Some ch"
  shows "destroy env w =
           Inr (w\<lparr>game := None, trace := trace w @ [EventsDestroy], events := None, sounds := None\<rparr>)"
  using assms by (simp add: destroy_def forEachActiveSound_def)

text \<open>
  Claim C9 fails on the code. The constructor subscribes one blur and one focus listener
  on \<^verbatim>\<open>game.events\<close>, and \<^verbatim>\<open>destroy()\<close> leaves both subscribed: on a manager that was
  constructed (the application had no other subscription) and then destroyed, a blur signal
  still invokes \<^verbatim>\<open>onBlur\<close> and a focus signal still invokes \<^verbatim>\<open>onFocus\<close>.
\<close>

theorem destroyed_manager_still_hears_blur_and_focus:
  "\<exists>w1 w2. initialize env (w\<lparr>game_listeners := []\<rparr>) = Inr w1 \<and>
           game_listeners w1 = [(ON_BLUR, BlurListener), (ON_FOCUS, FocusListener)] \<and>
           destroy env w1 = Inr w2 \<and>
           game_listeners w2 = [(ON_BLUR, BlurListener), (ON_FOCUS, FocusListener)] \<and>
           trace (deliver ON_BLUR w2) = trace w2 @ [ManagerHook OnBlur] \<and>
           trace (deliver ON_FOCUS w2) = trace w2 @ [ManagerHook OnFocus]"
proof -
  let ?w0 = "w\<lparr>game_listeners := []\<rparr>"
  let ?w1 = "?w0\<lparr>game := Some Game, events := Some EventDispatcher, sounds := Some [],
            mute := False, volume := 1, pauseOnBlur := True, rate_field := 1, detune_field := 0,
            game_listeners := game_listeners ?w0 @ [(ON_BLUR, BlurListener), (ON_FOCUS, FocusListener)],
            trace := trace ?w0 @ [Dispatch (SoundValueEvent SOUND_RATE 1),
                                  Dispatch (SoundValueEvent SOUND_DETUNE 0)]\<rparr>"
  let ?w2 = "?w1\<lparr>game := None, trace := trace ?w1 @ [EventsDestroy], events := None, sounds := None\<rparr>"
  have a: "initialize env ?w0 = Inr ?w1" by (rule initialize_result)
  have b: "destroy env ?w1 = Inr ?w2" by (rule destroy_fresh_manager) simp_all
  have c: "game_listeners ?w1 = [(ON_BLUR, BlurListener), (ON_FOCUS, FocusListener)]"
          "game_listeners ?w2 = [(ON_BLUR, BlurListener), (ON_FOCUS, FocusListener)]"
    by simp_all
  have d: "trace (deliver ON_BLUR ?w2) = trace ?w2 @ [ManagerHook OnBlur]"
          "trace (deliver ON_FOCUS ?w2) = trace ?w2 @ [ManagerHook OnFocus]"
    by (simp_all add: deliver_def onBlur_def onFocus_def)
  from a b c d show ?thesis by blast
qed

section \<open>Fire-and-forget playback\<close>

lemma add_result:
  assumes "sounds w = Some xs"
  shows "add env k cfg w =
           Inr (next_sid w,
                w\<lparr>heap := (heap w)(next_sid w :=
                      \<lparr>key = k, pendingRemove = False, spritemap = None, backend = create env k cfg\<rparr>),
                  next_sid := Suc (next_sid w),
                  ended_once := (ended_once w)(next_sid w := []),
                  sounds := Some (xs @ [next_sid w])\<rparr>)"
  using assms by (simp add: add_def)

lemma once_fields [simp]:
  "sounds (once s h w) = sounds w"
  "events (once s h w) = events w"
  "game (once s h w) = game w"
  "heap (once s h w) = heap w"
  "trace (once s h w) = trace w"
  "next_sid (once s h w) = next_sid w"
  "game_listeners (once s h w) = game_listeners w"
  "globals_of (once s h w) = globals_of w"
  "ended_once (once s h w) = (ended_once w)(s := ended_once w s @ [h])"
  by (simp_all add: once_def globals_of_def)

lemma emit_ended_single:
  "ended_once w s = [DestroyBound s] \<Longrightarrow>
   emit_ended env s w = invoke env s Destroy (w\<lparr>ended_once := (ended_once w)(s := [])\<rparr>)"
  by (simp add: emit_ended_def)

lemma emit_ended_none: "ended_once w s = [] \<Longrightarrow> emit_ended env s w = w"
proof -
  assume e: "ended_once w s = []"
  then have "(ended_once w)(s := []) = ended_once w"
    by (metis fun_upd_triv)
  then show ?thesis using e by (simp add: emit_ended_def)
qed

lemma get_name_truthy: "truthy x \<Longrightarrow> get_name x = Inr (name_of x)"
  by (cases x) (simp_all add: name_of_def)




section \<open>Audio sprites\<close>

lemma addAudioSprite_loop_trace:
  "addAudioSprite_loop env s cfg names w = Inr w2 \<Longrightarrow>
   \<exists>ms. trace w2 = trace w @ map (\<lambda>m. SoundCall s (AddMarker m)) ms \<and>
        (\<forall>m \<in> set ms. m_config m = cfg \<and> m_name m \<in> set names)"
proof (induction names arbitrary: w)
  case Nil
  then have "trace w2 = trace w @ map (\<lambda>m. SoundCall s (AddMarker m)) []" by simp
  then show ?case by (intro exI [of _ "[]"]) simp
next
  case (Cons markerName rest)
  from Cons.prems obtain es where es: "spritemap (heap w s) = Some es"
    by (cases "spritemap (heap w s)") simp_all
  show ?case
  proof (cases "find (\<lambda>e. sp_name e = markerName) es")
    case None
    with Cons.prems es have "addAudioSprite_loop env s cfg rest w = Inr w2" by simp
    from Cons.IH [OF this] show ?thesis by auto
  next
    case (Some e)
    show ?thesis
    proof (cases "sp_own e")
      case False
      with Cons.prems es Some have "addAudioSprite_loop env s cfg rest w = Inr w2" by simp
      from Cons.IH [OF this] show ?thesis by auto
    next
      case True
      let ?m = "\<lparr>m_name = markerName, m_start = sp_start e,
                 m_duration = js_minus env (sp_end e) (sp_start e), m_config = cfg\<rparr>"
      from Cons.prems es Some True
      have "addAudioSprite_loop env s cfg rest (invoke env s (AddMarker ?m) w) = Inr w2" by simp
      from Cons.IH [OF this] obtain ms where
        ms: "trace w2 = trace (invoke env s (AddMarker ?m) w) @ map (\<lambda>m. SoundCall s (AddMarker m)) ms"
            "\<forall>m \<in> set ms. m_config m = cfg \<and> m_name m \<in> set rest"
        by blast
      have "trace w2 = trace w @ map (\<lambda>m. SoundCall s (AddMarker m)) (?m # ms)"
        using ms(1) by simp
      moreover have "\<forall>m \<in> set (?m # ms). m_config m = cfg \<and> m_name m \<in> set (markerName # rest)"
        using ms(2) by simp
      ultimately show ?thesis by blast
    qed
  qed
qed

lemma addAudioSprite_trace:
  assumes "addAudioSprite env k cfg w = Inr (s, w1)"
  shows "\<exists>ms. trace w1 = trace w @ map (\<lambda>m. SoundCall s (AddMarker m)) ms \<and>
              (\<forall>m \<in> set ms. m_config m = cfg)"
proof -
  from assms obtain xs where xs: "sounds w = Some xs"
    by (cases "sounds w") (simp_all add: addAudioSprite_def add_def)
  let ?wa = "w\<lparr>heap := (heap w)(next_sid w :=
                      \<lparr>key = k, pendingRemove = False, spritemap = None, backend = create env k cfg\<rparr>),
                  next_sid := Suc (next_sid w),
                  ended_once := (ended_once w)(next_sid w := []),
                  sounds := Some (xs @ [next_sid w])\<rparr>"
  have a: "add env k cfg w = Inr (next_sid w, ?wa)" by (rule add_result [OF xs])
  from assms a obtain j where j: "cache_json env k = Some j"
    by (cases "cache_json env k") (simp_all add: addAudioSprite_def split: option.splits)
  let ?names = "case j_spritemap j of None \<Rightarrow> [] | Some es \<Rightarrow> map sp_name es"
  let ?wb = "?wa\<lparr>heap := (heap ?wa)(next_sid w := (heap ?wa (next_sid w))\<lparr>spritemap := j_spritemap j\<rparr>)\<rparr>"
  from assms a j have "s = next_sid w \<and> addAudioSprite_loop env (next_sid w) cfg ?names ?wb = Inr w1"
    by (auto simp: addAudioSprite_def split: option.splits sum.splits)
  then have s: "s = next_sid w"
    and l: "addAudioSprite_loop env s cfg ?names ?wb = Inr w1" by simp_all
  from addAudioSprite_loop_trace [OF l] show ?thesis by auto
qed

text \<open>
  Claim C10. \<^verbatim>\<open>playAudioSprite(key, spriteName, config)\<close> fails exactly when
  \<^verbatim>\<open>addAudioSprite(key)\<close>, called without a config, fails. When that call returns a sound,
  every effect it had is an \<^verbatim>\<open>addMarker\<close> call on that sound whose marker carries an
  undefined config; \<^verbatim>\<open>playAudioSprite\<close> then subscribes the one-shot handler and ends
  with the one call \<^verbatim>\<open>play(spriteName, config)\<close>, the only place the config reaches.
\<close>

theorem playAudioSprite_config_reaches_only_play:
  "(\<forall>e. playAudioSprite env k spriteName cfg w = Inl e \<longleftrightarrow> addAudioSprite env k None w = Inl e) \<and>
   (\<forall>s w1. addAudioSprite env k None w = Inr (s, w1) \<longrightarrow>
      (\<exists>ms. trace w1 = trace w @ map (\<lambda>m. SoundCall s (AddMarker m)) ms \<and>
            (\<forall>m \<in> set ms. m_config m = None)) \<and>
      playAudioSprite env k spriteName cfg w
        = Inr (invoke env s (Play [AName spriteName, AConfig cfg]) (once s (DestroyBound s) w1)) \<and>
      trace (invoke env s (Play [AName spriteName, AConfig cfg]) (once s (DestroyBound s) w1))
        = trace w1 @ [SoundCall s (Play [AName spriteName, AConfig cfg])])"
proof (intro conjI allI impI)
  fix e
  show "playAudioSprite env k spriteName cfg w = Inl e \<longleftrightarrow> addAudioSprite env k None w = Inl e"
    by (cases "addAudioSprite env k None w") (auto simp: playAudioSprite_def)
next
  fix s w1
  assume a: "addAudioSprite env k None w = Inr (s, w1)"
  show "\<exists>ms. trace w1 = trace w @ map (\<lambda>m. SoundCall s (AddMarker m)) ms \<and>
            (\<forall>m \<in> set ms. m_config m = None)"
    by (rule addAudioSprite_trace [OF a])
  show "playAudioSprite env k spriteName cfg w
        = Inr (invoke env s (Play [AName spriteName, AConfig cfg]) (once s (DestroyBound s) w1))"
    using a by (simp add: playAudioSprite_def)
  show "trace (invoke env s (Play [AName spriteName, AConfig cfg]) (once s (DestroyBound s) w1))
        = trace w1 @ [SoundCall s (Play [AName spriteName, AConfig cfg])]"
    by simp
qed

text \<open>
  The cached sprite map has the own entries \<open>''intro''\<close> (0 to 2) and \<open>''loop''\<close> (2 to 5)
  and one inherited property. Both markers are registered without a config; the settings
  passed to \<^verbatim>\<open>playAudioSprite\<close> appear in the final \<^verbatim>\<open>play\<close> call only.
\<close>

theorem playAudioSprite_config_reaches_only_play_witness:
  "\<exists>w'. playAudioSprite demo_env ''sprites'' ''loop'' (Some [(''volume'', 1 / 2)]) (demo_world []) = Inr w' \<and>
        trace w' =
          [SoundCall 0 (AddMarker \<lparr>m_name = ''intro'', m_start = 0, m_duration = 2, m_config = None\<rparr>),
           SoundCall 0 (AddMarker \<lparr>m_name = ''loop'', m_start = 2, m_duration = 3, m_config = None\<rparr>),
           SoundCall 0 (Play [AName ''loop'', AConfig (Some [(''volume'', 1 / 2)])])]"
proof -
  have "\<exists>w1. addAudioSprite demo_env ''sprites'' None (demo_world []) = Inr (0, w1) \<and>
          trace w1 =
            [SoundCall 0 (AddMarker \<lparr>m_name = ''intro'', m_start = 0, m_duration = 2, m_config = None\<rparr>),
             SoundCall 0 (AddMarker \<lparr>m_name = ''loop'', m_start = 2, m_duration = 3, m_config = None\<rparr>)]"
    by (simp add: addAudioSprite_def add_def demo_env_def demo_world_def invoke_def)
  then obtain w1 where
    a: "addAudioSprite demo_env ''sprites'' None (demo_world []) = Inr (0, w1)" and
    t: "trace w1 =
            [SoundCall 0 (AddMarker \<lparr>m_name = ''intro'', m_start = 0, m_duration = 2, m_config = None\<rparr>),
             SoundCall 0 (AddMarker \<lparr>m_name = ''loop'', m_start = 2, m_duration = 3, m_config = None\<rparr>)]"
    by blast
  show ?thesis
    using playAudioSprite_config_reaches_only_play
            [where env = demo_env and k = "''sprites''" and spriteName = "''loop''"
               and cfg = "Some [(''volume'', 1 / 2)]" and w = "demo_world []"]
          a t
    by auto
qed

section \<open>The registry over sequences of operations\<close>

lemma registry_invD:
  assumes "registry_inv base w t xs"
  shows "sounds w = Some xs" and "distinct xs" and "base \<le> next_sid w"
    and "length xs + removes t + length (reaped t) = adds t"
    and "\<And>s. s \<in> set xs \<Longrightarrow> base \<le> s \<and> s < next_sid w"
    and "\<And>s. s \<in> set (reaped t) \<Longrightarrow> base \<le> s \<and> s < next_sid w \<and> s \<notin> set xs"
    and "\<And>s. base \<le> s \<Longrightarrow> s < next_sid w \<Longrightarrow> s \<notin> set xs \<Longrightarrow>
           0 < destroyed_times w s \<or> s \<in> set (reaped t)"
  using assms unfolding registry_inv_def by blast+

lemma registry_invI:
  assumes "sounds w = Some xs" and "distinct xs" and "base \<le> next_sid w"
    and "length xs + removes t + length (reaped t) = adds t"
    and "\<And>s. s \<in> set xs \<Longrightarrow> base \<le> s \<and> s < next_sid w"
    and "\<And>s. s \<in> set (reaped t) \<Longrightarrow> base \<le> s \<and> s < next_sid w \<and> s \<notin> set xs"
    and "\<And>s. base \<le> s \<Longrightarrow> s < next_sid w \<Longrightarrow> s \<notin> set xs \<Longrightarrow>
           0 < destroyed_times w s \<or> s \<in> set (reaped t)"
  shows "registry_inv base w t xs"
  unfolding registry_inv_def using assms by blast

lemma destroyed_times_fields [simp]:
  "destroyed_times (w\<lparr>sounds := x\<rparr>) = destroyed_times w"
  "destroyed_times (w\<lparr>ended_once := y\<rparr>) = destroyed_times w"
  "destroyed_times (once s h w) = destroyed_times w"
  "destroyed_times (w\<lparr>heap := hp\<rparr>) = destroyed_times w"
  "destroyed_times (w\<lparr>next_sid := n\<rparr>) = destroyed_times w"
  by (simp_all add: destroyed_times_def fun_eq_iff)

lemma destroyed_times_fold_mono:
  "destroyed_times w t \<le> destroyed_times (fold (\<lambda>s. invoke env s c) ys w) t"
  by (simp add: destroyed_times_def)

lemma count_list_calls_pos:
  "t \<in> set ys \<Longrightarrow> 0 < count_list (map (\<lambda>s. SoundCall s c) ys) (SoundCall t c)"
  by (induction ys) auto

lemma destroyed_times_fold_destroy_pos:
  "t \<in> set ys \<Longrightarrow> 0 < destroyed_times (fold (\<lambda>s. invoke env s Destroy) ys w) t"
  by (simp add: destroyed_times_def count_list_calls_pos)

lemma fold_run_handler_fields [simp]:
  "sounds (fold (run_handler env) hs w) = sounds w"
  "next_sid (fold (run_handler env) hs w) = next_sid w"
proof (induction hs arbitrary: w)
  case Nil
  { case 1 show ?case by simp }
  { case 2 show ?case by simp }
next
  case (Cons h hs)
  { case 1 show ?case by (cases h) (simp add: Cons.IH) }
  { case 2 show ?case by (cases h) (simp add: Cons.IH) }
qed

lemma fold_run_handler_mono:
  "destroyed_times w t \<le> destroyed_times (fold (run_handler env) hs w) t"
proof (induction hs arbitrary: w)
  case Nil
  show ?case by simp
next
  case (Cons h hs)
  obtain s where h: "h = DestroyBound s" by (cases h)
  have "destroyed_times w t \<le> destroyed_times (invoke env s Destroy w) t" by simp
  also have "\<dots> \<le> destroyed_times (fold (run_handler env) hs (invoke env s Destroy w)) t"
    by (rule Cons.IH)
  finally show ?case by (simp add: h)
qed

lemma inv_grow:
  assumes "registry_inv base w t xs" and "sounds w' = Some xs" and "next_sid w' = next_sid w"
    and "\<And>s. destroyed_times w s \<le> destroyed_times w' s"
  shows "registry_inv base w' t xs"
proof -
  note d = registry_invD [OF assms(1)]
  show ?thesis
  proof (rule registry_invI)
    show "sounds w' = Some xs" by (rule assms(2))
    show "distinct xs" by (rule d(2))
    show "base \<le> next_sid w'" unfolding assms(3) by (rule d(3))
    show "length xs + removes t + length (reaped t) = adds t" by (rule d(4))
  next
    fix s assume "s \<in> set xs"
    then show "base \<le> s \<and> s < next_sid w'" unfolding assms(3) by (rule d(5))
  next
    fix s assume "s \<in> set (reaped t)"
    then show "base \<le> s \<and> s < next_sid w' \<and> s \<notin> set xs" unfolding assms(3) by (rule d(6))
  next
    fix s assume "base \<le> s" "s < next_sid w'" "s \<notin> set xs"
    then have "0 < destroyed_times w s \<or> s \<in> set (reaped t)"
      unfolding assms(3) by (rule d(7))
    then show "0 < destroyed_times w' s \<or> s \<in> set (reaped t)"
      using assms(4) [of s] by auto
  qed
qed

lemma inv_add:
  assumes "registry_inv base w t xs"
  shows "add env k cfg w =
           Inr (next_sid w,
                w\<lparr>heap := (heap w)(next_sid w :=
                      \<lparr>key = k, pendingRemove = False, spritemap = None, backend = create env k cfg\<rparr>),
                  next_sid := Suc (next_sid w),
                  ended_once := (ended_once w)(next_sid w := []),
                  sounds := Some (xs @ [next_sid w])\<rparr>) \<and>
         registry_inv base
               (w\<lparr>heap := (heap w)(next_sid w :=
                      \<lparr>key = k, pendingRemove = False, spritemap = None, backend = create env k cfg\<rparr>),
                  next_sid := Suc (next_sid w),
                  ended_once := (ended_once w)(next_sid w := []),
                  sounds := Some (xs @ [next_sid w])\<rparr>)
               (t\<lparr>adds := adds t + 1\<rparr>) (xs @ [next_sid w])"
proof -
  let ?n = "next_sid w"
  let ?w' = "w\<lparr>heap := (heap w)(?n :=
                      \<lparr>key = k, pendingRemove = False, spritemap = None, backend = create env k cfg\<rparr>),
                  next_sid := Suc ?n,
                  ended_once := (ended_once w)(?n := []),
                  sounds := Some (xs @ [?n])\<rparr>"
  let ?t' = "t\<lparr>adds := adds t + 1\<rparr>"
  note d = registry_invD [OF assms]
  have a: "add env k cfg w = Inr (?n, ?w')" by (rule add_result [OF d(1)])
  have fresh: "?n \<notin> set xs" using d(5) by auto
  have "registry_inv base ?w' ?t' (xs @ [?n])"
  proof (rule registry_invI)
    show "sounds ?w' = Some (xs @ [?n])" by simp
    show "distinct (xs @ [?n])" using d(2) fresh by simp
    show "base \<le> next_sid ?w'" using d(3) by simp
    show "length (xs @ [?n]) + removes ?t' + length (reaped ?t') = adds ?t'" using d(4) by simp
  next
    fix s assume "s \<in> set (xs @ [?n])"
    then show "base \<le> s \<and> s < next_sid ?w'" using d(3) d(5) [of s] by auto
  next
    fix s assume "s \<in> set (reaped ?t')"
    then show "base \<le> s \<and> s < next_sid ?w' \<and> s \<notin> set (xs @ [?n])"
      using d(6) [of s] by auto
  next
    fix s assume "base \<le> s" "s < next_sid ?w'" "s \<notin> set (xs @ [?n])"
    then show "0 < destroyed_times ?w' s \<or> s \<in> set (reaped ?t')"
      using d(7) [of s] by (simp add: less_Suc_eq)
  qed
  with a show ?thesis by simp
qed

lemma inv_play:
  assumes "registry_inv base w t xs"
  shows "\<exists>w'. play env k extra w = Inr w' \<and>
           registry_inv base w' (t\<lparr>adds := adds t + 1\<rparr>) (xs @ [next_sid w])"
proof -
  let ?n = "next_sid w"
  let ?w1 = "w\<lparr>heap := (heap w)(?n :=
                      \<lparr>key = k, pendingRemove = False, spritemap = None, backend = create env k None\<rparr>),
                  next_sid := Suc ?n,
                  ended_once := (ended_once w)(?n := []),
                  sounds := Some (xs @ [?n])\<rparr>"
  let ?w2 = "once ?n (DestroyBound ?n) ?w1"
  let ?w' = "if truthy extra
             then (if truthy (name_of extra)
                   then invoke env ?n (Play [AValue (name_of extra)])
                          (invoke env ?n (AddMarkerArg extra) ?w2)
                   else invoke env ?n (Play [AValue extra]) ?w2)
             else invoke env ?n (Play []) ?w2"
  from inv_add [OF assms, of env k None]
  have a: "add env k None w = Inr (?n, ?w1)"
    and i1: "registry_inv base ?w1 (t\<lparr>adds := adds t + 1\<rparr>) (xs @ [?n])"
    by simp_all
  have p: "play env k extra w = Inr ?w'"
    by (simp add: play_def a Let_def get_name_truthy)
  have "registry_inv base ?w' (t\<lparr>adds := adds t + 1\<rparr>) (xs @ [?n])"
    by (rule inv_grow [OF i1]) simp_all
  with p show ?thesis by blast
qed

lemma inv_remove:
  assumes "registry_inv base w t xs"
  shows "\<exists>b w' xs'. remove env s w = Inr (b, w') \<and>
           registry_inv base w' (if b then t\<lparr>removes := removes t + 1\<rparr> else t) xs'"
proof (cases "s \<in> set xs")
  case False
  then have "remove env s w = Inr (False, w)"
    by (rule remove_absent [OF registry_invD(1) [OF assms]])
  with assms show ?thesis by (intro exI [of _ False] exI [of _ w] exI [of _ xs]) simp
next
  case True
  note d = registry_invD [OF assms]
  let ?w' = "(invoke env s Destroy w)\<lparr>sounds := Some (remove1 s xs)\<rparr>"
  let ?t' = "t\<lparr>removes := removes t + 1\<rparr>"
  have r: "remove env s w = Inr (True, ?w')"
    by (rule remove_present [OF d(1) True])
  have len: "length (remove1 s xs) + 1 = length xs"
    using True by (simp add: length_remove1) (cases xs; simp)
  have "registry_inv base ?w' ?t' (remove1 s xs)"
  proof (rule registry_invI)
    show "sounds ?w' = Some (remove1 s xs)" by simp
    show "distinct (remove1 s xs)" using d(2) by simp
    show "base \<le> next_sid ?w'" using d(3) by simp
    show "length (remove1 s xs) + removes ?t' + length (reaped ?t') = adds ?t'"
      using d(4) len by simp
  next
    fix u assume "u \<in> set (remove1 s xs)"
    then have "u \<in> set xs" using set_remove1_subset [of s xs] by auto
    then show "base \<le> u \<and> u < next_sid ?w'" using d(5) by simp
  next
    fix u assume "u \<in> set (reaped ?t')"
    then have "base \<le> u \<and> u < next_sid w \<and> u \<notin> set xs" using d(6) [of u] by simp
    then show "base \<le> u \<and> u < next_sid ?w' \<and> u \<notin> set (remove1 s xs)"
      using set_remove1_subset [of s xs] by auto
  next
    fix u assume u: "base \<le> u" "u < next_sid ?w'" "u \<notin> set (remove1 s xs)"
    show "0 < destroyed_times ?w' u \<or> u \<in> set (reaped ?t')"
    proof (cases "u = s")
      case True
      then show ?thesis by simp
    next
      case False
      with u(3) have "u \<notin> set xs" by simp
      with u(1,2) have "0 < destroyed_times w u \<or> u \<in> set (reaped t)"
        by (intro d(7)) simp_all
      then show ?thesis by auto
    qed
  qed
  with r show ?thesis
    by (intro exI [of _ True] exI [of _ ?w'] exI [of _ "remove1 s xs"]) simp
qed

lemma inv_removeByKey:
  assumes "registry_inv base w t xs"
  shows "\<exists>n w' xs'. removeByKey env k w = Inr (n, w') \<and>
           registry_inv base w' (t\<lparr>removes := removes t + n\<rparr>) xs'"
proof -
  note d = registry_invD [OF assms]
  let ?ds = "rev (keyed w k xs)"
  let ?ys = "unkeyed w k xs"
  let ?w' = "(fold (\<lambda>s. invoke env s Destroy) ?ds w)\<lparr>sounds := Some ?ys\<rparr>"
  let ?t' = "t\<lparr>removes := removes t + length (keyed w k xs)\<rparr>"
  have r: "removeByKey env k w = Inr (length (keyed w k xs), ?w')"
    by (rule removeByKey_result [OF d(1,2)])
  have len: "length ?ys + length (keyed w k xs) = length xs"
    unfolding keyed_def unkeyed_def using sum_length_filter_compl [of "\<lambda>s. key (heap w s) = k" xs]
    by simp
  have sub: "set ?ys \<subseteq> set xs" by (auto simp: unkeyed_def)
  have split: "\<And>u. u \<in> set xs \<Longrightarrow> u \<notin> set ?ys \<Longrightarrow> u \<in> set ?ds"
    by (auto simp: keyed_def unkeyed_def)
  have "registry_inv base ?w' ?t' ?ys"
  proof (rule registry_invI)
    show "sounds ?w' = Some ?ys" by simp
    show "distinct ?ys" using d(2) by (simp add: unkeyed_def)
    show "base \<le> next_sid ?w'" using d(3) by simp
    show "length ?ys + removes ?t' + length (reaped ?t') = adds ?t'"
      using d(4) len by simp
  next
    fix u assume "u \<in> set ?ys"
    then show "base \<le> u \<and> u < next_sid ?w'" using d(5) [of u] sub by auto
  next
    fix u assume "u \<in> set (reaped ?t')"
    then show "base \<le> u \<and> u < next_sid ?w' \<and> u \<notin> set ?ys"
      using d(6) [of u] sub by auto
  next
    fix u assume u: "base \<le> u" "u < next_sid ?w'" "u \<notin> set ?ys"
    show "0 < destroyed_times ?w' u \<or> u \<in> set (reaped ?t')"
    proof (cases "u \<in> set xs")
      case True
      then have "u \<in> set ?ds" using u(3) by (rule split)
      then show ?thesis by (simp add: destroyed_times_fold_destroy_pos del: fold_invoke_trace)
    next
      case False
      with u(1,2) have "0 < destroyed_times w u \<or> u \<in> set (reaped t)"
        by (intro d(7)) simp_all
      moreover have "destroyed_times w u \<le> destroyed_times ?w' u"
        using destroyed_times_fold_mono [of w u env Destroy ?ds] by simp
      ultimately show ?thesis by auto
    qed
  qed
  with r show ?thesis by blast
qed

lemma inv_update:
  assumes "registry_inv base w t xs"
  shows "\<exists>w' xs'. update env time delta w = Inr w' \<and>
           registry_inv base w'
             (t\<lparr>reaped := reaped t @ filter (\<lambda>s. pendingRemove (heap w s)) xs\<rparr>) xs'"
proof -
  note d = registry_invD [OF assms]
  let ?ys = "active w xs"
  let ?fs = "filter (\<lambda>s. pendingRemove (heap w s)) xs"
  let ?w' = "fold (\<lambda>s. invoke env s (Update time delta)) ?ys (w\<lparr>sounds := Some ?ys\<rparr>)"
  let ?t' = "t\<lparr>reaped := reaped t @ ?fs\<rparr>"
  have run: "update env time delta w = Inr ?w'"
    by (rule update_result [OF d(1)])
  have len: "length ?ys + length ?fs = length xs"
    unfolding active_def using sum_length_filter_compl [of "\<lambda>s. pendingRemove (heap w s)" xs]
    by simp
  have mono: "\<And>u. destroyed_times w u \<le> destroyed_times ?w' u"
    using destroyed_times_fold_mono [of "w\<lparr>sounds := Some ?ys\<rparr>"] by simp
  have "registry_inv base ?w' ?t' ?ys"
  proof (rule registry_invI)
    show "sounds ?w' = Some ?ys" by simp
    show "distinct ?ys" using d(2) by (rule distinct_active)
    show "base \<le> next_sid ?w'" using d(3) by simp
    show "length ?ys + removes ?t' + length (reaped ?t') = adds ?t'"
      using d(4) len by simp
  next
    fix u assume "u \<in> set ?ys"
    then show "base \<le> u \<and> u < next_sid ?w'" using d(5) [of u] by (simp add: in_active_iff)
  next
    fix u assume "u \<in> set (reaped ?t')"
    then have "u \<in> set (reaped t) \<or> (u \<in> set xs \<and> pendingRemove (heap w u))" by auto
    then show "base \<le> u \<and> u < next_sid ?w' \<and> u \<notin> set ?ys"
      using d(5) [of u] d(6) [of u] by (auto simp: in_active_iff)
  next
    fix u assume u: "base \<le> u" "u < next_sid ?w'" "u \<notin> set ?ys"
    show "0 < destroyed_times ?w' u \<or> u \<in> set (reaped ?t')"
    proof (cases "u \<in> set xs")
      case True
      with u(3) have "pendingRemove (heap w u)" by (simp add: in_active_iff)
      with True show ?thesis by simp
    next
      case False
      with u(1,2) have "0 < destroyed_times w u \<or> u \<in> set (reaped t)"
        by (intro d(7)) simp_all
      then show ?thesis using mono [of u] by auto
    qed
  qed
  with run show ?thesis by blast
qed

lemma inv_emit_ended:
  assumes "registry_inv base w t xs"
  shows "registry_inv base (emit_ended env s w) t xs"
proof (rule inv_grow [OF assms])
  show "sounds (emit_ended env s w) = Some xs"
    using registry_invD(1) [OF assms] by (simp add: emit_ended_def)
  show "next_sid (emit_ended env s w) = next_sid w"
    by (simp add: emit_ended_def)
  fix u show "destroyed_times w u \<le> destroyed_times (emit_ended env s w) u"
    using fold_run_handler_mono [of "w\<lparr>ended_once := (ended_once w)(s := [])\<rparr>" u env "ended_once w s"]
    by (simp add: emit_ended_def)
qed

lemma step_inv:
  assumes "registry_inv base w t xs"
  shows "\<exists>w' t' xs'. step env x (w, t) = Inr (w', t') \<and> registry_inv base w' t' xs'"
proof (cases x)
  case (OpAdd k cfg)
  from inv_add [OF assms, of env k cfg] show ?thesis unfolding OpAdd by auto
next
  case (OpPlay k extra)
  from inv_play [OF assms, of env k extra] show ?thesis unfolding OpPlay by auto
next
  case (OpRemove s)
  from inv_remove [OF assms, of env s] obtain b w' xs' where
    r: "remove env s w = Inr (b, w')"
       "registry_inv base w' (if b then t\<lparr>removes := removes t + 1\<rparr> else t) xs'"
    by blast
  then show ?thesis unfolding OpRemove
    by (intro exI [of _ w'] exI [of _ "if b then t\<lparr>removes := removes t + 1\<rparr> else t"]
        exI [of _ xs']) simp
next
  case (OpRemoveByKey k)
  from inv_removeByKey [OF assms, of env k] show ?thesis unfolding OpRemoveByKey by auto
next
  case (OpUpdate time delta)
  from inv_update [OF assms, of env time delta] registry_invD(1) [OF assms]
  show ?thesis unfolding OpUpdate by auto
next
  case (OpEnded s)
  from inv_emit_ended [OF assms, of env s] show ?thesis unfolding OpEnded by auto
qed

lemma run_inv:
  "registry_inv base w t xs \<Longrightarrow>
   \<exists>w' t' xs'. run env ops (w, t) = Inr (w', t') \<and> registry_inv base w' t' xs'"
proof (induction ops arbitrary: w t xs)
  case Nil
  then show ?case by auto
next
  case (Cons x ops)
  from step_inv [OF Cons.prems, of env x] obtain w1 t1 xs1 where
    s: "step env x (w, t) = Inr (w1, t1)" "registry_inv base w1 t1 xs1"
    by blast
  from Cons.IH [OF s(2)] s(1) show ?case by simp
qed

lemma inv_initial:
  "registry_inv (next_sid w0)
     ((w0\<lparr>trace := []\<rparr>)
        \<lparr>game := Some Game, events := Some EventDispatcher, sounds := Some [],
         mute := False, volume := 1, pauseOnBlur := True, rate_field := 1, detune_field := 0,
         game_listeners := game_listeners (w0\<lparr>trace := []\<rparr>)
                             @ [(ON_BLUR, BlurListener), (ON_FOCUS, FocusListener)],
         trace := trace (w0\<lparr>trace := []\<rparr>)
                    @ [Dispatch (SoundValueEvent SOUND_RATE 1),
                       Dispatch (SoundValueEvent SOUND_DETUNE 0)]\<rparr>)
     \<lparr>adds = 0, removes = 0, reaped = []\<rparr> []"
  by (rule registry_invI) simp_all



lemma blank_clean: "blank\<lparr>trace := []\<rparr> = blank"
  by (simp add: blank_def)

lemma demo_run:
  "\<exists>w1 w. initialize demo_env blank = Inr w1 \<and>
     run demo_env
       [OpAdd ''x'' None, OpPlay ''sfx'' JUndefined, OpEnded 1, OpRemoveByKey ''x'', OpRemove 0,
        OpUpdate 0 16]
       (w1, \<lparr>adds = 0, removes = 0, reaped = []\<rparr>) = Inr (w, \<lparr>adds = 2, removes = 1, reaped = [1]\<rparr>) \<and>
     sounds w = Some [] \<and> next_sid w = 2"
  apply (simp add: initialize_result blank_def)
  apply (simp add: add_def play_def Let_def once_def invoke_def emit_ended_def removeByKey_def
      remove_def indexOf_def update_def demo_env_def globals_of_def splice1_def demo_sound_def)
  done


end
